theory Spec2Isabelle
  imports Main
begin

section \<open>The dynamic if block of the block-dynamic-connection plugin\<close>

text \<open>
  A shallow embedding of \<^verbatim>\<open>src/plugins/block-dynamic-connection/src/dynamic_if.ts\<close>.
  The block is a record holding its input list and the two cached counters; every method
  of \<^verbatim>\<open>DYNAMIC_IF_MIXIN\<close> is a function from the block to the block it leaves behind.
  A method that can throw returns \<open>None\<close> for the exception.
\<close>

subsection \<open>Strings and numbers of the host language\<close>

text \<open>
  Decimal rendering of a non-negative number, as string concatenation \<^verbatim>\<open>'IF' + i\<close> and the
  template \<^verbatim>\<open>`IF${i}`\<close> produce it.
\<close>

definition digit_char :: "nat \<Rightarrow> char" where
  "digit_char d = ''0123456789'' ! d"

fun string_of_nat :: "nat \<Rightarrow> string" where
  "string_of_nat n =
     (if n < 10 then [digit_char n]
      else string_of_nat (n div 10) @ [digit_char (n mod 10)])"

declare string_of_nat.simps [simp del]

definition string_of_int :: "int \<Rightarrow> string" where
  "string_of_int k =
     (if k < 0 then CHR ''-'' # string_of_nat (nat (- k)) else string_of_nat (nat k))"

text \<open>\<^verbatim>\<open>String.prototype.includes\<close>: the second string occurs in the first.\<close>

fun starts_with :: "string \<Rightarrow> string \<Rightarrow> bool" where
  "starts_with s [] = True"
| "starts_with [] (p # ps) = False"
| "starts_with (c # cs) (p # ps) = (c = p \<and> starts_with cs ps)"

fun str_includes :: "string \<Rightarrow> string \<Rightarrow> bool" where
  "str_includes [] p = (p = [])"
| "str_includes (c # cs) p = (starts_with (c # cs) p \<or> str_includes cs p)"

text \<open>\<^verbatim>\<open>String.prototype.split(',')\<close>: the pieces between the commas, at least one.\<close>

fun split_comma :: "string \<Rightarrow> string list" where
  "split_comma [] = [[]]"
| "split_comma (c # cs) =
     (if c = CHR '','' then [] # split_comma cs
      else (case split_comma cs of
              p # ps \<Rightarrow> (c # p) # ps
            | [] \<Rightarrow> [[c]]))"

text \<open>
  \<^verbatim>\<open>parseInt(s, 10)\<close>: leading white space is skipped, one sign is read, then the longest
  run of decimal digits; with no digit the result is NaN, here \<open>None\<close>. Whatever follows the
  digits is ignored.

  A string here is a list of 8-bit characters. Of the white space that \<^verbatim>\<open>parseInt\<close> skips,
  the characters below \<open>U+0100\<close> are covered: tab, line feed, vertical tab, form feed, carriage
  return, space and the no-break space \<open>U+00A0\<close>. An attribute that holds a character beyond
  this range (the white space \<open>U+2028\<close>, say) has no counterpart here.

  Numbers are unbounded integers here. The host's doubles hold every integer up to \<open>2^53\<close>
  exactly and round beyond it, so the two agree on every count below \<open>2^53\<close>; a block with
  that many inputs does not fit into an array of the host.
\<close>

definition is_space :: "char \<Rightarrow> bool" where
  "is_space c =
     (c \<in> set [CHR '' '', CHR 0x09, CHR 0x0A, CHR 0x0B, CHR 0x0C, CHR 0x0D, CHR 0xA0])"

definition is_digit :: "char \<Rightarrow> bool" where
  "is_digit c = (c \<in> set ''0123456789'')"

text \<open>The value of a digit is its position among the ten digits.\<close>

definition digit_val :: "char \<Rightarrow> nat" where
  "digit_val c = length (takeWhile (\<lambda>d. d \<noteq> c) ''0123456789'')"

definition digits_val :: "string \<Rightarrow> nat" where
  "digits_val ds = foldl (\<lambda>n c. 10 * n + digit_val c) 0 ds"

definition parseInt :: "string \<Rightarrow> int option" where
  "parseInt s =
     (let t = dropWhile is_space s;
          neg = (case t of c # r \<Rightarrow> c = CHR ''-'' | [] \<Rightarrow> False);
          u = (case t of c # r \<Rightarrow> if c = CHR ''-'' \<or> c = CHR ''+'' then r else t | [] \<Rightarrow> []);
          ds = takeWhile is_digit u
      in if ds = [] then None
         else Some (if neg then - int (digits_val ds) else int (digits_val ds)))"

text \<open>\<^verbatim>\<open>parseInt(...) || 0\<close>: NaN and 0 are falsy, every other number stands.\<close>

definition or_zero :: "int option \<Rightarrow> int" where
  "or_zero v = (case v of None \<Rightarrow> 0 | Some k \<Rightarrow> k)"

subsection \<open>Connections, inputs and the block\<close>

datatype ConnectionType = INPUT_VALUE | OUTPUT_VALUE | NEXT_STATEMENT | PREVIOUS_STATEMENT

text \<open>
  The connection of another block that is plugged into one of this block's connections.
  \<open>target_id\<close> is the identity of the object; \<open>isInsertionMarker\<close> is what
  \<^verbatim>\<open>getSourceBlock().isInsertionMarker()\<close> answers for it.
\<close>

record target =
  target_id :: nat
  isInsertionMarker :: bool

text \<open>
  A connection of this block. \<open>conn_id\<close> is the identity of the object, which
  \<^verbatim>\<open>input.connection == connection\<close> compares.
\<close>

record connection =
  conn_id :: nat
  conn_type :: ConnectionType
  targetConnection :: "target option"

text \<open>
  Value and statement inputs always carry a connection, so the optional chaining
  \<^verbatim>\<open>connection?.\<close> of the source never short-circuits on the inputs of this block.
\<close>

record input =
  name :: string
  connection :: connection

text \<open>
  \<open>fresh_id\<close> numbers the connection objects created so far, so that every new input gets
  a connection with an identity of its own.
\<close>

record block =
  inputList :: "input list"
  elseifCount :: int
  elseCount :: int
  nextConnection :: connection
  previousConnection :: connection
  fresh_id :: nat

subsection \<open>The host's block interface\<close>

text \<open>
  Modelled from the spec: the methods of the host library's \<^verbatim>\<open>Block\<close> and
  \<^verbatim>\<open>Connection\<close> classes that the mixin calls (\<^verbatim>\<open>appendValueInput\<close>,
  \<^verbatim>\<open>appendStatementInput\<close>, \<^verbatim>\<open>getInput\<close>, \<^verbatim>\<open>removeInput\<close>,
  \<^verbatim>\<open>moveInputBefore\<close>, \<^verbatim>\<open>connect\<close>) are not part of the repository. The spec
  gives the slot list as an ordered sequence of named slots, each holding at most one
  reference to an external subtree (section 3), and its operations as lookup by name,
  insertion before a position and removal (section 4.1); the definitions below follow
  the host's documented behaviour for exactly these operations.
\<close>

definition new_input :: "string \<Rightarrow> ConnectionType \<Rightarrow> nat \<Rightarrow> input" where
  "new_input nm ty cid =
     \<lparr>name = nm, connection = \<lparr>conn_id = cid, conn_type = ty, targetConnection = None\<rparr>\<rparr>"

definition appendInput :: "block \<Rightarrow> ConnectionType \<Rightarrow> string \<Rightarrow> block" where
  "appendInput b ty nm =
     b\<lparr>inputList := inputList b @ [new_input nm ty (fresh_id b)],
       fresh_id := Suc (fresh_id b)\<rparr>"

text \<open>A value input carries an input-value connection, a statement input a next-statement one.\<close>

definition appendValueInput :: "block \<Rightarrow> string \<Rightarrow> block" where
  "appendValueInput b nm = appendInput b INPUT_VALUE nm"

definition appendStatementInput :: "block \<Rightarrow> string \<Rightarrow> block" where
  "appendStatementInput b nm = appendInput b NEXT_STATEMENT nm"

definition getInput :: "block \<Rightarrow> string \<Rightarrow> input option" where
  "getInput b nm = find (\<lambda>i. name i = nm) (inputList b)"

text \<open>
  \<^verbatim>\<open>removeInput(name)\<close> disposes of the first input of that name, which unplugs whatever
  was attached to it, and throws when there is none.
\<close>

fun remove_named :: "string \<Rightarrow> input list \<Rightarrow> input list option" where
  "remove_named nm [] = None"
| "remove_named nm (x # xs) =
     (if name x = nm then Some xs
      else (case remove_named nm xs of None \<Rightarrow> None | Some ys \<Rightarrow> Some (x # ys)))"

definition removeInput :: "block \<Rightarrow> string \<Rightarrow> block option" where
  "removeInput b nm =
     (case remove_named nm (inputList b) of
        None \<Rightarrow> None
      | Some ys \<Rightarrow> Some (b\<lparr>inputList := ys\<rparr>))"

text \<open>
  \<^verbatim>\<open>moveInputBefore(name, refName)\<close> returns at once when the two names are equal. Otherwise
  one scan of the input list records the index of the input called \<open>name\<close> and of the one
  called \<open>refName\<close> (an empty reference name stands for the end of the list), stopping as soon
  as both are known; it throws when either is missing. \<^verbatim>\<open>moveNumberedInputBefore\<close> then
  takes the input out and puts it back in front of the reference.
\<close>

fun scan_inputs ::
  "string \<Rightarrow> string \<Rightarrow> input list \<Rightarrow> nat \<Rightarrow> nat option \<Rightarrow> nat option \<Rightarrow> nat option \<times> nat option"
where
  "scan_inputs nm ref [] i inputIndex refIndex = (inputIndex, refIndex)"
| "scan_inputs nm ref (x # xs) i inputIndex refIndex =
     (if name x = nm then
        (if refIndex \<noteq> None then (Some i, refIndex)
         else scan_inputs nm ref xs (Suc i) (Some i) refIndex)
      else if ref \<noteq> [] \<and> name x = ref then
        (if inputIndex \<noteq> None then (inputIndex, Some i)
         else scan_inputs nm ref xs (Suc i) inputIndex (Some i))
      else scan_inputs nm ref xs (Suc i) inputIndex refIndex)"

definition moveNumberedInputBefore :: "block \<Rightarrow> nat \<Rightarrow> nat \<Rightarrow> block option" where
  "moveNumberedInputBefore b inputIndex refIndex =
     (let xs = inputList b in
      if inputIndex = refIndex then None
      else if length xs \<le> inputIndex then None
      else if length xs < refIndex then None
      else
        (let inp = xs ! inputIndex;
             ys = take inputIndex xs @ drop (Suc inputIndex) xs;
             r = (if inputIndex < refIndex then refIndex - 1 else refIndex)
         in Some (b\<lparr>inputList := take r ys @ [inp] @ drop r ys\<rparr>)))"

definition moveInputBefore :: "block \<Rightarrow> string \<Rightarrow> string \<Rightarrow> block option" where
  "moveInputBefore b nm ref =
     (if nm = ref then Some b
      else
        (case scan_inputs nm ref (inputList b) 0 None
                (if ref = [] then Some (length (inputList b)) else None) of
           (Some inputIndex, Some refIndex) \<Rightarrow> moveNumberedInputBefore b inputIndex refIndex
         | _ \<Rightarrow> None))"

text \<open>
  \<^verbatim>\<open>connection.connect(target)\<close> on the connection with identity \<open>cid\<close>. A target that is
  plugged in elsewhere on the block is taken out there first, since a connection is attached
  to one partner at a time. The targets reconnected by this block were attached to an input
  of the same kind before, so the host's type check lets them through.
\<close>

definition set_target :: "target option \<Rightarrow> input \<Rightarrow> input" where
  "set_target t i = i\<lparr>connection := (connection i)\<lparr>targetConnection := t\<rparr>\<rparr>"

definition unplug :: "target \<Rightarrow> input \<Rightarrow> input" where
  "unplug t i = (if targetConnection (connection i) = Some t then set_target None i else i)"

definition connect :: "block \<Rightarrow> nat \<Rightarrow> target \<Rightarrow> block" where
  "connect b cid t =
     b\<lparr>inputList :=
         map (\<lambda>i. if conn_id (connection i) = cid then set_target (Some t) i else unplug t i)
             (inputList b)\<rparr>"

subsection \<open>The persisted mutation element\<close>

text \<open>An XML element is read through its attributes only.\<close>

type_synonym element = "string \<rightharpoonup> string"

definition createElement :: element where
  "createElement = Map.empty"

definition getAttribute :: "element \<Rightarrow> string \<Rightarrow> string option" where
  "getAttribute el k = el k"

definition setAttribute :: "element \<Rightarrow> string \<Rightarrow> string \<Rightarrow> element" where
  "setAttribute el k v = el(k \<mapsto> v)"

subsection \<open>The methods of the mixin\<close>

text \<open>
  \<^verbatim>\<open>init\<close>: the two default inputs, then the next and the previous statement connection.
\<close>

definition init :: block where
  "init =
     \<lparr>inputList = [new_input ''IF0'' INPUT_VALUE 0, new_input ''DO0'' NEXT_STATEMENT 1],
      elseifCount = 0,
      elseCount = 0,
      nextConnection = \<lparr>conn_id = 2, conn_type = NEXT_STATEMENT, targetConnection = None\<rparr>,
      previousConnection =
        \<lparr>conn_id = 3, conn_type = PREVIOUS_STATEMENT, targetConnection = None\<rparr>,
      fresh_id = 4\<rparr>"

text \<open>\<^verbatim>\<open>deserializeInputs\<close>: the legacy form, a comma-separated list of case discriminators.\<close>

fun appendCasesNamed :: "string list \<Rightarrow> block \<Rightarrow> block" where
  "appendCasesNamed [] b = b"
| "appendCasesNamed (d # ds) b =
     appendCasesNamed ds
       (appendStatementInput (appendValueInput b (''IF'' @ d)) (''DO'' @ d))"

definition deserializeInputs :: "block \<Rightarrow> element \<Rightarrow> block option" where
  "deserializeInputs b xmlElement =
     (let b1 =
        (case getAttribute xmlElement ''inputs'' of
           None \<Rightarrow> Some b
         | Some inputs \<Rightarrow>
             if inputs = [] then Some b
             else
               (let inputNumbers = split_comma inputs;
                    b2 = (if getInput b ''IF0'' \<noteq> None then removeInput b ''IF0'' else Some b);
                    b3 = (case b2 of
                            None \<Rightarrow> None
                          | Some b' \<Rightarrow>
                              if getInput b' ''DO0'' \<noteq> None then removeInput b' ''DO0''
                              else Some b')
                in (case b3 of
                      None \<Rightarrow> None
                    | Some b' \<Rightarrow> Some (appendCasesNamed inputNumbers b'))))
      in (case b1 of
            None \<Rightarrow> None
          | Some b' \<Rightarrow>
              if getAttribute xmlElement ''else'' = Some ''true''
              then Some (appendStatementInput b' ''ELSE'')
              else Some b'))"

text \<open>\<^verbatim>\<open>deserializeCounts\<close>: the canonical form, the two counts.\<close>

function appendCasesFrom :: "int \<Rightarrow> int \<Rightarrow> block \<Rightarrow> block" where
  "appendCasesFrom i n b =
     (if i \<le> n
      then appendCasesFrom (i + 1) n
             (appendStatementInput
                (appendValueInput b (''IF'' @ string_of_int i)) (''DO'' @ string_of_int i))
      else b)"
  by pat_completeness auto
termination
  by (relation "measure (\<lambda>(i, n, b). nat (n + 1 - i))") auto

declare appendCasesFrom.simps [simp del]

definition attribute_or_zero :: "element \<Rightarrow> string \<Rightarrow> string" where
  "attribute_or_zero el k = (case getAttribute el k of None \<Rightarrow> ''0'' | Some v \<Rightarrow> v)"

definition deserializeCounts :: "block \<Rightarrow> element \<Rightarrow> block" where
  "deserializeCounts b xmlElement =
     (let b1 = b\<lparr>elseifCount := or_zero (parseInt (attribute_or_zero xmlElement ''elseif''))\<rparr>;
          b2 = b1\<lparr>elseCount := or_zero (parseInt (attribute_or_zero xmlElement ''else''))\<rparr>;
          b3 = appendCasesFrom 1 (elseifCount b2) b2
      in if elseCount b3 \<noteq> 0 then appendStatementInput b3 ''ELSE'' else b3)"

definition domToMutation :: "block \<Rightarrow> element \<Rightarrow> block option" where
  "domToMutation b xmlElement =
     (case getAttribute xmlElement ''inputs'' of
        Some (c # cs) \<Rightarrow> deserializeInputs b xmlElement
      | _ \<Rightarrow> Some (deserializeCounts b xmlElement))"

text \<open>\<^verbatim>\<open>findInputIndexForConnection\<close>: the index of the input that owns the connection.\<close>

fun find_conn_index :: "input list \<Rightarrow> nat \<Rightarrow> connection \<Rightarrow> nat option" where
  "find_conn_index [] i c = None"
| "find_conn_index (x # xs) i c =
     (if conn_id (connection x) = conn_id c then Some i else find_conn_index xs (Suc i) c)"

definition findInputIndexForConnection :: "block \<Rightarrow> connection \<Rightarrow> nat option" where
  "findInputIndexForConnection b c = find_conn_index (inputList b) 0 c"

text \<open>
  \<^verbatim>\<open>insertElseIf(index, id)\<close>: both inputs are appended and then moved in front of the
  inputs found at \<open>index\<close> and \<open>index + 1\<close>. Reading the name of an input beyond the end of
  the list throws. The result carries the identities of the connections of the two new
  inputs, which is what the caller uses of the returned pair.
\<close>

definition insertElseIf :: "block \<Rightarrow> nat \<Rightarrow> string \<Rightarrow> (block \<times> nat \<times> nat) option" where
  "insertElseIf b index ident =
     (let ifId = fresh_id b;
          b1 = appendValueInput b (''IF'' @ ident);
          doId = fresh_id b1;
          b2 = appendStatementInput b1 (''DO'' @ ident)
      in if length (inputList b2) \<le> index then None
         else
           (case moveInputBefore b2 (''IF'' @ ident) (name (inputList b2 ! index)) of
              None \<Rightarrow> None
            | Some b3 \<Rightarrow>
                if length (inputList b3) \<le> index + 1 then None
                else
                  (case moveInputBefore b3 (''DO'' @ ident) (name (inputList b3 ! (index + 1))) of
                     None \<Rightarrow> None
                   | Some b4 \<Rightarrow> Some (b4, ifId, doId))))"

text \<open>
  \<^verbatim>\<open>onPendingConnection(connection)\<close>. The third argument is the identifier that
  \<^verbatim>\<open>Blockly.utils.idGenerator.genUid()\<close> returns when the method asks for one.
\<close>

definition onPendingConnection :: "block \<Rightarrow> connection \<Rightarrow> string \<Rightarrow> block option" where
  "onPendingConnection b c uid =
     (let b1 = (if conn_type c = NEXT_STATEMENT \<and> getInput b ''ELSE'' = None
                then appendStatementInput b ''ELSE'' else b)
      in (case findInputIndexForConnection b1 c of
            None \<Rightarrow> Some b1
          | Some inputIndex \<Rightarrow>
              (let inp = inputList b1 ! inputIndex in
               if targetConnection c \<noteq> None \<and> str_includes (name inp) ''IF'' then
                 (if length (inputList b1) \<le> inputIndex + 2
                     \<or> name (inputList b1 ! (inputIndex + 2)) = ''ELSE''
                  then map_option fst (insertElseIf b1 (inputIndex + 2) uid)
                  else
                    (case targetConnection (connection (inputList b1 ! (inputIndex + 2))) of
                       None \<Rightarrow> Some b1
                     | Some nextIfConnection \<Rightarrow>
                         if \<not> isInsertionMarker nextIfConnection
                         then map_option fst (insertElseIf b1 (inputIndex + 2) uid)
                         else Some b1))
               else Some b1)))"

text \<open>\<^verbatim>\<open>collectTargetCaseConns\<close>: the attachments of every case with at least one.\<close>

record CaseConnectionPair =
  ifTarget :: "target option"
  doTarget :: "target option"

fun collect_pairs :: "input list \<Rightarrow> CaseConnectionPair list" where
  "collect_pairs (x # y # rest) =
     (let ifT = targetConnection (connection x);
          doT = targetConnection (connection y)
      in if ifT = None \<and> doT = None then collect_pairs rest
         else \<lparr>ifTarget = ifT, doTarget = doT\<rparr> # collect_pairs rest)"
| "collect_pairs [x] = []"
| "collect_pairs [] = []"

definition collectTargetCaseConns :: "block \<Rightarrow> CaseConnectionPair list" where
  "collectTargetCaseConns b = collect_pairs (inputList b)"

text \<open>
  \<^verbatim>\<open>deleteDynamicInputs\<close>: from the last index down to 2, remove the input that carries the
  name found at that index.
\<close>

fun deleteFrom :: "nat \<Rightarrow> block \<Rightarrow> block option" where
  "deleteFrom i b =
     (if i < 2 then Some b
      else if length (inputList b) \<le> i then None
      else (case removeInput b (name (inputList b ! i)) of
              None \<Rightarrow> None
            | Some b' \<Rightarrow> deleteFrom (i - 1) b'))"

declare deleteFrom.simps [simp del]

definition deleteDynamicInputs :: "block \<Rightarrow> block option" where
  "deleteDynamicInputs b = deleteFrom (length (inputList b) - 1) b"

text \<open>\<^verbatim>\<open>addCaseInputs\<close>: case \<open>i\<close> of the list goes to the inputs \<open>IFi\<close> and \<open>DOi\<close>.\<close>

definition connect_opt :: "block \<Rightarrow> nat \<Rightarrow> target option \<Rightarrow> block" where
  "connect_opt b cid t = (case t of None \<Rightarrow> b | Some tc \<Rightarrow> connect b cid tc)"

fun addCasesFrom :: "nat \<Rightarrow> CaseConnectionPair list \<Rightarrow> block \<Rightarrow> block option" where
  "addCasesFrom i [] b = Some b"
| "addCasesFrom i (p # ps) b =
     (let found =
        (case (getInput b (''IF'' @ string_of_nat i), getInput b (''DO'' @ string_of_nat i)) of
           (Some ifInput, Some doInput) \<Rightarrow>
             Some (b, conn_id (connection ifInput), conn_id (connection doInput))
         | _ \<Rightarrow> insertElseIf b (i * 2) (string_of_nat i))
      in (case found of
            None \<Rightarrow> None
          | Some (b1, ifId, doId) \<Rightarrow>
              addCasesFrom (Suc i) ps
                (connect_opt (connect_opt b1 ifId (ifTarget p)) doId (doTarget p))))"

definition addCaseInputs :: "block \<Rightarrow> CaseConnectionPair list \<Rightarrow> block option" where
  "addCaseInputs b targetConns = addCasesFrom 0 targetConns b"

definition addElseInput :: "block \<Rightarrow> target \<Rightarrow> block" where
  "addElseInput b targetElseConn =
     connect (appendStatementInput b ''ELSE'') (fresh_id b) targetElseConn"

text \<open>\<^verbatim>\<open>finalizeConnections\<close>: the rebuild at the end of a drag.\<close>

definition elseTarget :: "block \<Rightarrow> target option" where
  "elseTarget b =
     (case getInput b ''ELSE'' of None \<Rightarrow> None | Some i \<Rightarrow> targetConnection (connection i))"

definition finalizeConnections :: "block \<Rightarrow> block option" where
  "finalizeConnections b =
     (let targetCaseConns = collectTargetCaseConns b;
          targetElseConn = elseTarget b
      in (case deleteDynamicInputs b of
            None \<Rightarrow> None
          | Some b1 \<Rightarrow>
              (case addCaseInputs b1 targetCaseConns of
                 None \<Rightarrow> None
               | Some b2 \<Rightarrow>
                   (let b3 = (case targetElseConn of
                                None \<Rightarrow> b2
                              | Some t \<Rightarrow> addElseInput b2 t)
                    in Some (b3\<lparr>elseifCount := max (int (length targetCaseConns) - 1) 0,
                                elseCount := (if targetElseConn \<noteq> None then 1 else 0)\<rparr>)))))"

text \<open>
  \<^verbatim>\<open>mutationToDom\<close>: the block after the rebuild, and the element or \<open>None\<close> for
  \<^verbatim>\<open>null\<close>.
\<close>

definition mutationToDom :: "block \<Rightarrow> (block \<times> element option) option" where
  "mutationToDom b =
     (case finalizeConnections b of
        None \<Rightarrow> None
      | Some b1 \<Rightarrow>
          if elseifCount b1 = 0 \<and> elseCount b1 = 0 then Some (b1, None)
          else
            (let container = createElement;
                 container1 = (if elseifCount b1 \<noteq> 0
                               then setAttribute container ''elseif'' (string_of_int (elseifCount b1))
                               else container);
                 container2 = (if elseCount b1 \<noteq> 0
                               then setAttribute container1 ''else'' ''1''
                               else container1)
             in Some (b1, Some container2)))"

subsection \<open>Observations of a block and well-formed blocks\<close>

text \<open>The slots of a block as the user sees them: the name and the attachment of each.\<close>

definition slot :: "input \<Rightarrow> string \<times> target option" where
  "slot i = (name i, targetConnection (connection i))"

definition slots :: "block \<Rightarrow> (string \<times> target option) list" where
  "slots b = map slot (inputList b)"

definition names :: "block \<Rightarrow> string list" where
  "names b = map name (inputList b)"

text \<open>The targets plugged into a list of inputs, and those recorded in a list of cases.\<close>

definition opt_list :: "'a option \<Rightarrow> 'a list" where
  "opt_list v = (case v of None \<Rightarrow> [] | Some x \<Rightarrow> [x])"

definition attached :: "input list \<Rightarrow> target list" where
  "attached xs = concat (map (\<lambda>i. opt_list (targetConnection (connection i))) xs)"

definition pair_targets :: "CaseConnectionPair list \<Rightarrow> target list" where
  "pair_targets ps = concat (map (\<lambda>p. opt_list (ifTarget p) @ opt_list (doTarget p)) ps)"

text \<open>
  The slot list of a block is a sequence of cases, each a value input \<open>IFd\<close> followed by the
  statement input \<open>DOd\<close> of the same discriminator \<open>d\<close>, and then at most one statement
  input \<open>ELSE\<close>. Every method of the mixin that builds inputs builds them in this shape.
\<close>

fun slots_ok :: "input list \<Rightarrow> bool" where
  "slots_ok [] = True"
| "slots_ok [e] = (name e = ''ELSE'' \<and> conn_type (connection e) = NEXT_STATEMENT)"
| "slots_ok (x # y # rest) =
     (take 2 (name x) = ''IF'' \<and> name y = ''DO'' @ drop 2 (name x)
      \<and> conn_type (connection x) = INPUT_VALUE \<and> conn_type (connection y) = NEXT_STATEMENT
      \<and> slots_ok rest)"

text \<open>The kind of connection an input carries goes with its name.\<close>

definition typed_ok :: "input list \<Rightarrow> bool" where
  "typed_ok xs =
     list_all (\<lambda>i. conn_type (connection i)
                     = (if take 2 (name i) = ''IF'' then INPUT_VALUE else NEXT_STATEMENT)) xs"

text \<open>
  A well-formed block: at least one case, slots in the shape above under names that are
  unique on the block, connection objects with identities of their own (those of the block's
  next and previous connection included) that were all handed out before \<open>fresh_id\<close>, and no
  target plugged into two inputs at once.
\<close>

definition ids_ok :: "block \<Rightarrow> bool" where
  "ids_ok b =
     (distinct (map (\<lambda>i. conn_id (connection i)) (inputList b)
                @ [conn_id (nextConnection b), conn_id (previousConnection b)])
      \<and> list_all (\<lambda>i. conn_id (connection i) < fresh_id b) (inputList b)
      \<and> conn_id (nextConnection b) < fresh_id b
      \<and> conn_id (previousConnection b) < fresh_id b)"

definition well_formed :: "block \<Rightarrow> bool" where
  "well_formed b =
     (2 \<le> length (inputList b)
      \<and> slots_ok (inputList b)
      \<and> distinct (names b)
      \<and> ids_ok b
      \<and> distinct (map target_id (attached (inputList b))))"

text \<open>The first case is the default one that \<^verbatim>\<open>init\<close> builds.\<close>

definition default_first :: "block \<Rightarrow> bool" where
  "default_first b = (take 2 (names b) = [''IF0'', ''DO0''])"

text \<open>The slots of the cases \<open>k, k + 1, ...\<close> holding the given attachments.\<close>

fun case_slots :: "nat \<Rightarrow> CaseConnectionPair list \<Rightarrow> (string \<times> target option) list" where
  "case_slots k [] = []"
| "case_slots k (p # ps) =
     (''IF'' @ string_of_nat k, ifTarget p) # (''DO'' @ string_of_nat k, doTarget p)
       # case_slots (Suc k) ps"

definition else_slots :: "target option \<Rightarrow> (string \<times> target option) list" where
  "else_slots t = (case t of None \<Rightarrow> [] | Some tc \<Rightarrow> [(''ELSE'', Some tc)])"

text \<open>The names of the case \<open>d\<close> without attachments, as a rebuild can leave them behind.\<close>

definition empty_case :: "string \<Rightarrow> (string \<times> target option) list" where
  "empty_case d = [(''IF'' @ d, None), (''DO'' @ d, None)]"

text \<open>
  The cases of a slot list, populated or not: the attachments of each pair of slots. A slot
  left over at the end, as the Else slot is, belongs to no case.
\<close>

fun slot_pairs :: "(string \<times> target option) list \<Rightarrow> CaseConnectionPair list" where
  "slot_pairs (s1 # s2 # rest) = \<lparr>ifTarget = snd s1, doTarget = snd s2\<rparr> # slot_pairs rest"
| "slot_pairs [s1] = []"
| "slot_pairs [] = []"

definition cases_of :: "block \<Rightarrow> CaseConnectionPair list" where
  "cases_of b = slot_pairs (slots b)"

text \<open>The shape of the block as the spec has it: how many cases, and whether an Else slot.\<close>

definition caseCount :: "block \<Rightarrow> nat" where
  "caseCount b = length (cases_of b)"

definition hasElse :: "block \<Rightarrow> bool" where
  "hasElse b = (''ELSE'' \<in> set (names b))"

definition empty_pair :: CaseConnectionPair where
  "empty_pair = \<lparr>ifTarget = None, doTarget = None\<rparr>"

definition populated :: "CaseConnectionPair \<Rightarrow> bool" where
  "populated p = (ifTarget p \<noteq> None \<or> doTarget p \<noteq> None)"

text \<open>Taking a target out wherever it is plugged in, when there is one.\<close>

definition unplug_opt :: "target option \<Rightarrow> input \<Rightarrow> input" where
  "unplug_opt t i = (case t of None \<Rightarrow> i | Some tc \<Rightarrow> unplug tc i)"

text \<open>
  Loading a saved block: the host builds a fresh block and hands the saved mutation element
  to \<^verbatim>\<open>domToMutation\<close>; when nothing was saved, the fresh block stands as it is.
\<close>

definition load_saved :: "element option \<Rightarrow> block option" where
  "load_saved el = (case el of None \<Rightarrow> Some init | Some e \<Rightarrow> domToMutation init e)"

subsection \<open>Blocks to run the methods on\<close>

definition real_target :: "nat \<Rightarrow> target" where
  "real_target n = \<lparr>target_id = n, isInsertionMarker = False\<rparr>"

definition marker_target :: "nat \<Rightarrow> target" where
  "marker_target n = \<lparr>target_id = n, isInsertionMarker = True\<rparr>"

text \<open>The host plugs a target into the input of the given name, as a drop does.\<close>

definition attach :: "block \<Rightarrow> string \<Rightarrow> target \<Rightarrow> block" where
  "attach b nm t =
     (case getInput b nm of None \<Rightarrow> b | Some i \<Rightarrow> connect b (conn_id (connection i)) t)"

text \<open>The connection of the input of the given name, the one a drag hovers over.\<close>

definition connection_of :: "block \<Rightarrow> string \<Rightarrow> connection" where
  "connection_of b nm =
     (case getInput b nm of None \<Rightarrow> nextConnection b | Some i \<Rightarrow> connection i)"

text \<open>A block decoded from the canonical form with one else-if case.\<close>

definition two_cases :: block where
  "two_cases = deserializeCounts init (Map.empty(''elseif'' \<mapsto> ''1''))"

text \<open>
  Three cases of which the middle one is empty; the first holds a block on its Condition
  slot only, the last one on its Branch slot only.
\<close>

definition three_cases :: block where
  "three_cases =
     attach (attach (deserializeCounts init (Map.empty(''elseif'' \<mapsto> ''2'')))
               ''IF0'' (real_target 7))
       ''DO2'' (real_target 8)"

text \<open>
  Real blocks on both slots of the first case and on an Else slot that a hover has added.
\<close>

definition with_else :: block where
  "with_else =
     attach (attach (attach (appendStatementInput init ''ELSE'') ''IF0'' (real_target 7))
               ''DO0'' (real_target 8))
       ''ELSE'' (real_target 9)"

text \<open>
  A block in canonical form with \<open>k\<close> else-if cases, with or without an Else slot, and a
  real block of its own on every slot.
\<close>

definition fill :: "block \<Rightarrow> block" where
  "fill b =
     b\<lparr>inputList :=
         map (\<lambda>i. set_target (Some (real_target (conn_id (connection i)))) i) (inputList b)\<rparr>"

definition canonical_block :: "nat \<Rightarrow> bool \<Rightarrow> block" where
  "canonical_block k e =
     fill (deserializeCounts init
             (Map.empty(''elseif'' \<mapsto> string_of_nat k, ''else'' \<mapsto> (if e then ''1'' else ''0''))))"

text \<open>A block decoded from the legacy form whose only case has the discriminator 3.\<close>

definition legacy_three :: block where
  "legacy_three = the (domToMutation init (Map.empty(''inputs'' \<mapsto> ''3'')))"

text \<open>
  Two cases decoded from the legacy form \<^verbatim>\<open>inputs="3,4"\<close>: the first one is empty, the second
  one holds a real block on its Condition slot.
\<close>

definition legacy_three_four :: block where
  "legacy_three_four =
     attach (the (domToMutation init (Map.empty(''inputs'' \<mapsto> ''3,4'')))) ''IF4'' (real_target 7)"

text \<open>
  The one case decoded from the legacy form \<^verbatim>\<open>inputs="xIF"\<close>, with a real block on its Branch
  slot \<open>DOxIF\<close>. Then a drag: the pointer is over that Branch slot, the identifier generator
  hands out \<open>u\<close>, and the dragged block is dropped on the Branch slot \<open>DOu\<close> of the new case.
\<close>

definition legacy_xif :: block where
  "legacy_xif =
     attach (the (domToMutation init (Map.empty(''inputs'' \<mapsto> ''xIF'')))) ''DOxIF'' (real_target 7)"

definition dropped_xif :: block where
  "dropped_xif =
     attach (the (onPendingConnection legacy_xif (connection_of legacy_xif ''DOxIF'') ''u''))
       ''DOu'' (real_target 9)"

text \<open>
  A drag over the default block with a real block on \<open>IF0\<close>: the hover over \<open>IF0\<close> inserts a
  case under the generated identifier \<open>aIFb\<close>, and the insertion marker sits on its Branch
  slot.
\<close>

definition marker_on_new_case :: block where
  "marker_on_new_case =
     (let b = attach init ''IF0'' (real_target 7)
      in attach (the (onPendingConnection b (connection_of b ''IF0'') ''aIFb''))
           ''DOaIFb'' (marker_target 8))"



section \<open>Properties\<close>

subsection \<open>Decimal numerals\<close>

lemma digit_char_cases:
  assumes "d < 10"
  shows "is_digit (digit_char d) \<and> digit_val (digit_char d) = d \<and> \<not> is_space (digit_char d)
         \<and> digit_char d \<noteq> CHR ''-'' \<and> digit_char d \<noteq> CHR ''+''"
proof -
  from assms have "d \<in> {0, 1, 2, 3, 4, 5, 6, 7, 8, 9}" by auto
  then show ?thesis
    by (auto simp: digit_char_def is_digit_def digit_val_def is_space_def)
qed

lemma string_of_nat_digits: "list_all is_digit (string_of_nat n) \<and> string_of_nat n \<noteq> []"
proof (induction n rule: string_of_nat.induct)
  case (1 n)
  show ?case
  proof (cases "n < 10")
    case True
    then show ?thesis using digit_char_cases [of n] by (simp add: string_of_nat.simps [of n])
  next
    case False
    then show ?thesis
      using 1 digit_char_cases [of "n mod 10"] by (simp add: string_of_nat.simps [of n])
  qed
qed

lemma digits_val_snoc: "digits_val (ds @ [c]) = 10 * digits_val ds + digit_val c"
  by (simp add: digits_val_def)

lemma digits_val_string_of_nat: "digits_val (string_of_nat n) = n"
proof (induction n rule: string_of_nat.induct)
  case (1 n)
  show ?case
  proof (cases "n < 10")
    case True
    then show ?thesis
      using digit_char_cases [of n] by (simp add: string_of_nat.simps [of n] digits_val_def)
  next
    case False
    then show ?thesis
      using 1 digit_char_cases [of "n mod 10"]
      by (simp add: string_of_nat.simps [of n] digits_val_snoc)
  qed
qed

lemma string_of_nat_inj: "string_of_nat m = string_of_nat n \<Longrightarrow> m = n"
  by (metis digits_val_string_of_nat)

lemma string_of_nat_hd:
  "\<exists>c cs. string_of_nat n = c # cs \<and> is_digit c \<and> \<not> is_space c \<and> c \<noteq> CHR ''-'' \<and> c \<noteq> CHR ''+''"
proof (induction n rule: string_of_nat.induct)
  case (1 n)
  show ?case
  proof (cases "n < 10")
    case True
    then show ?thesis using digit_char_cases [of n] by (simp add: string_of_nat.simps [of n])
  next
    case False
    then show ?thesis
      using 1 by (auto simp add: string_of_nat.simps [of n])
  qed
qed

lemma takeWhile_all: "list_all P xs \<Longrightarrow> takeWhile P xs = xs"
  by (induction xs) auto

lemma parseInt_string_of_nat: "parseInt (string_of_nat n) = Some (int n)"
proof -
  obtain c cs where s: "string_of_nat n = c # cs" and c: "\<not> is_space c" "c \<noteq> CHR ''-''" "c \<noteq> CHR ''+''"
    using string_of_nat_hd [of n] by blast
  have all: "list_all is_digit (c # cs)" using string_of_nat_digits [of n] s by simp
  have "takeWhile is_digit (c # cs) = c # cs" by (rule takeWhile_all [OF all])
  moreover have "digits_val (c # cs) = n" using digits_val_string_of_nat [of n] s by simp
  ultimately show ?thesis using c s
    by (simp add: parseInt_def Let_def)
qed

lemma parseInt_string_of_int: "0 \<le> k \<Longrightarrow> parseInt (string_of_int k) = Some k"
  by (simp add: string_of_int_def parseInt_string_of_nat)

text \<open>White space in front of the number is skipped, the no-break space included.\<close>

lemma parseInt_skips_space:
  "parseInt (CHR 0xA0 # CHR 0x09 # '' 2'') = Some 2"
  "parseInt (CHR 0xA0 # ''-1x'') = Some (- 1)"
  "parseInt [CHR 0xA0] = None"
  by code_simp+



subsection \<open>The host's operations on lists with unique names\<close>

lemma find_name_None: "nm \<notin> name ` set xs \<Longrightarrow> find (\<lambda>i. name i = nm) xs = None"
  by (induction xs) auto

lemma find_name_first:
  "nm \<notin> name ` set pre \<Longrightarrow> name x = nm \<Longrightarrow> find (\<lambda>i. name i = nm) (pre @ x # post) = Some x"
  by (induction pre) auto

lemma remove_named_first:
  "name x \<notin> name ` set pre \<Longrightarrow> remove_named (name x) (pre @ x # post) = Some (pre @ post)"
  by (induction pre) auto

lemma scan_after_ref:
  "nm \<notin> name ` set mid \<Longrightarrow> ref \<notin> name ` set mid \<Longrightarrow> name x = nm \<Longrightarrow>
   scan_inputs nm ref (mid @ x # post) i None (Some p) = (Some (i + length mid), Some p)"
  by (induction mid arbitrary: i) auto

lemma scan_ref_then_name:
  "nm \<noteq> ref \<Longrightarrow> ref \<noteq> [] \<Longrightarrow> nm \<notin> name ` set pre \<Longrightarrow> ref \<notin> name ` set pre \<Longrightarrow>
   name r = ref \<Longrightarrow> nm \<notin> name ` set mid \<Longrightarrow> ref \<notin> name ` set mid \<Longrightarrow> name x = nm \<Longrightarrow>
   scan_inputs nm ref (pre @ r # mid @ x # post) i None None
     = (Some (i + length pre + 1 + length mid), Some (i + length pre))"
proof (induction pre arbitrary: i)
  case Nil
  then show ?case using scan_after_ref [of nm mid "name r" x post "Suc i" i] by auto
next
  case (Cons a pre)
  then show ?case by auto
qed

lemma moveInputBefore_back:
  assumes xs: "inputList b = pre @ r # mid @ x # post"
    and "name x = nm" "name r = ref" "nm \<noteq> ref" "ref \<noteq> []"
    and "nm \<notin> name ` set pre" "ref \<notin> name ` set pre"
    and "nm \<notin> name ` set mid" "ref \<notin> name ` set mid"
  shows "moveInputBefore b nm ref = Some (b\<lparr>inputList := pre @ x # r # mid @ post\<rparr>)"
proof -
  have scan: "scan_inputs nm ref (inputList b) 0 None None
                = (Some (length pre + 1 + length mid), Some (length pre))"
    using scan_ref_then_name [of nm ref pre r mid x post 0] assms by simp
  have nth: "(pre @ r # mid @ x # post) ! (Suc (length pre + length mid)) = x"
    by (metis add_Suc_right append.assoc append_Cons length_Cons length_append nth_append_length)
  have tk: "take (Suc (length pre + length mid)) (pre @ r # mid @ x # post) = pre @ r # mid"
    by (simp add: take_append)
  have dr: "drop (Suc (Suc (length pre + length mid))) (pre @ r # mid @ x # post) = post"
    by (simp add: drop_append)
  show ?thesis
    using assms(4,5) scan xs nth tk dr
    by (simp add: moveInputBefore_def moveNumberedInputBefore_def Let_def)
qed

lemma append_two_inputs:
  "appendStatementInput (appendValueInput b nI) nD =
     b\<lparr>inputList := inputList b @ [new_input nI INPUT_VALUE (fresh_id b),
                                     new_input nD NEXT_STATEMENT (Suc (fresh_id b))],
       fresh_id := Suc (Suc (fresh_id b))\<rparr>"
  by (simp add: appendStatementInput_def appendValueInput_def appendInput_def)

lemma insertElseIf_unfold:
  "insertElseIf b j d =
     (let b2 = b\<lparr>inputList := inputList b @ [new_input (''IF'' @ d) INPUT_VALUE (fresh_id b),
                                     new_input (''DO'' @ d) NEXT_STATEMENT (Suc (fresh_id b))],
                 fresh_id := Suc (Suc (fresh_id b))\<rparr>
      in if length (inputList b2) \<le> j then None
         else (case moveInputBefore b2 (''IF'' @ d) (name (inputList b2 ! j)) of
                 None \<Rightarrow> None
               | Some b3 \<Rightarrow>
                   if length (inputList b3) \<le> j + 1 then None
                   else (case moveInputBefore b3 (''DO'' @ d) (name (inputList b3 ! (j + 1))) of
                           None \<Rightarrow> None
                         | Some b4 \<Rightarrow> Some (b4, fresh_id b, Suc (fresh_id b)))))"
proof -
  have fid: "fresh_id (appendValueInput b (''IF'' @ d)) = Suc (fresh_id b)"
    by (simp add: appendValueInput_def appendInput_def)
  show ?thesis
    unfolding insertElseIf_def Let_def append_two_inputs fid ..
qed

lemma insertElseIf_end:
  "insertElseIf b (length (inputList b)) d =
     Some (b\<lparr>inputList := inputList b @ [new_input (''IF'' @ d) INPUT_VALUE (fresh_id b),
                                           new_input (''DO'' @ d) NEXT_STATEMENT (Suc (fresh_id b))],
             fresh_id := Suc (Suc (fresh_id b))\<rparr>,
           fresh_id b, Suc (fresh_id b))"
  unfolding insertElseIf_unfold Let_def
  by (simp add: moveInputBefore_def nth_append new_input_def)

lemma insertElseIf_before:
  assumes xs: "inputList b = pre @ r # mid"
    and r_pre: "name r \<notin> name ` set pre" and r_mid: "name r \<notin> name ` set mid"
    and r_ne: "name r \<noteq> []"
    and fresh_if: "''IF'' @ d \<notin> name ` set (inputList b)"
    and fresh_do: "''DO'' @ d \<notin> name ` set (inputList b)"
  shows "insertElseIf b (length pre) d =
           Some (b\<lparr>inputList := pre
                      @ [new_input (''IF'' @ d) INPUT_VALUE (fresh_id b),
                         new_input (''DO'' @ d) NEXT_STATEMENT (Suc (fresh_id b))]
                      @ r # mid,
                    fresh_id := Suc (Suc (fresh_id b))\<rparr>,
                 fresh_id b, Suc (fresh_id b))"
proof -
  define I where "I = new_input (''IF'' @ d) INPUT_VALUE (fresh_id b)"
  define D where "D = new_input (''DO'' @ d) NEXT_STATEMENT (Suc (fresh_id b))"
  define b2 where "b2 = b\<lparr>inputList := inputList b @ [I, D], fresh_id := Suc (Suc (fresh_id b))\<rparr>"
  have nI: "name I = ''IF'' @ d" and nD: "name D = ''DO'' @ d"
    by (simp_all add: I_def D_def new_input_def)
  have l2: "inputList b2 = pre @ r # mid @ I # [D]" by (simp add: b2_def xs)
  have unf: "insertElseIf b (length pre) d =
      (if length (inputList b2) \<le> length pre then None
       else (case moveInputBefore b2 (name I) (name (inputList b2 ! length pre)) of
               None \<Rightarrow> None
             | Some b3 \<Rightarrow>
                 if length (inputList b3) \<le> length pre + 1 then None
                 else (case moveInputBefore b3 (name D) (name (inputList b3 ! (length pre + 1))) of
                         None \<Rightarrow> None
                       | Some b4 \<Rightarrow> Some (b4, fresh_id b, Suc (fresh_id b)))))"
    unfolding insertElseIf_unfold Let_def b2_def I_def D_def nI [unfolded I_def] nD [unfolded D_def] ..
  have if_r: "name I \<noteq> name r" and do_r: "name D \<noteq> name r"
    and if_pre: "name I \<notin> name ` set pre" and if_mid: "name I \<notin> name ` set mid"
    and do_pre: "name D \<notin> name ` set pre" and do_mid: "name D \<notin> name ` set mid"
    using fresh_if fresh_do xs nI nD by auto
  have if_do: "name D \<noteq> name I" by (simp add: nI nD)
  define b3 where "b3 = b2\<lparr>inputList := pre @ I # r # mid @ [D]\<rparr>"
  have m1: "moveInputBefore b2 (name I) (name r) = Some b3"
    unfolding b3_def
    by (rule moveInputBefore_back [OF l2 refl refl if_r r_ne if_pre r_pre if_mid r_mid])
  have l3: "inputList b3 = (pre @ [I]) @ r # mid @ D # []" by (simp add: b3_def)
  have m2: "moveInputBefore b3 (name D) (name r)
              = Some (b3\<lparr>inputList := (pre @ [I]) @ D # r # mid @ []\<rparr>)"
    apply (rule moveInputBefore_back [OF l3 refl refl do_r r_ne _ _ do_mid r_mid])
    using do_pre if_do r_pre if_r by auto
  have n2: "inputList b2 ! length pre = r" by (simp add: l2)
  have n3: "inputList b3 ! (length pre + 1) = r" by (simp add: b3_def nth_append)
  have len3: "\<not> length (inputList b3) \<le> length pre + 1" by (simp add: b3_def)
  have step2: "(if length (inputList b3) \<le> length pre + 1 then None
       else (case moveInputBefore b3 (name D) (name (inputList b3 ! (length pre + 1))) of
               None \<Rightarrow> None
             | Some b4 \<Rightarrow> Some (b4, fresh_id b, Suc (fresh_id b))))
     = Some (b3\<lparr>inputList := (pre @ [I]) @ D # r # mid @ []\<rparr>, fresh_id b, Suc (fresh_id b))"
    unfolding n3 m2 using len3 by simp
  have "insertElseIf b (length pre) d
          = Some (b3\<lparr>inputList := (pre @ [I]) @ D # r # mid @ []\<rparr>, fresh_id b, Suc (fresh_id b))"
    unfolding unf n2 m1 option.case step2 by (simp add: l2)
  then show ?thesis
    by (simp add: b3_def b2_def I_def D_def)
qed

lemma insertElseIf_at:
  assumes j: "j \<le> length (inputList b)"
    and dist: "distinct (map name (inputList b))"
    and nonempty: "[] \<notin> name ` set (inputList b)"
    and fresh_if: "''IF'' @ d \<notin> name ` set (inputList b)"
    and fresh_do: "''DO'' @ d \<notin> name ` set (inputList b)"
  shows "insertElseIf b j d =
           Some (b\<lparr>inputList := take j (inputList b)
                      @ [new_input (''IF'' @ d) INPUT_VALUE (fresh_id b),
                         new_input (''DO'' @ d) NEXT_STATEMENT (Suc (fresh_id b))]
                      @ drop j (inputList b),
                    fresh_id := Suc (Suc (fresh_id b))\<rparr>,
                 fresh_id b, Suc (fresh_id b))"
proof (cases "j = length (inputList b)")
  case True
  then show ?thesis using insertElseIf_end [of b d] by simp
next
  case False
  with j have jlt: "j < length (inputList b)" by simp
  define r where "r = inputList b ! j"
  define pre where "pre = take j (inputList b)"
  define mid where "mid = drop (Suc j) (inputList b)"
  have xs: "inputList b = pre @ r # mid"
    using jlt by (simp add: pre_def r_def mid_def id_take_nth_drop)
  have lpre: "length pre = j" using jlt by (simp add: pre_def)
  have dist': "distinct (map name (pre @ r # mid))" using dist xs by simp
  have r_pre: "name r \<notin> name ` set pre" and r_mid: "name r \<notin> name ` set mid"
    using dist' by auto
  have r_ne: "name r \<noteq> []" using nonempty xs by auto
  have dr: "drop j (inputList b) = r # mid"
    using jlt by (simp add: r_def mid_def Cons_nth_drop_Suc)
  show ?thesis
    using insertElseIf_before [OF xs r_pre r_mid r_ne fresh_if fresh_do]
    by (simp add: lpre dr pre_def [symmetric])
qed

subsection \<open>Looking up a connection\<close>

lemma find_conn_index_append:
  "find_conn_index (xs @ ys) i c =
     (case find_conn_index xs i c of
        Some k \<Rightarrow> Some k
      | None \<Rightarrow> find_conn_index ys (i + length xs) c)"
  by (induction xs arbitrary: i) (auto split: option.splits)

lemma getInput_None_iff: "getInput b nm = None \<longleftrightarrow> nm \<notin> set (names b)"
  by (auto simp: getInput_def names_def find_None_iff)

subsection \<open>The shape of a well-formed slot list\<close>

lemma slots_ok_nth:
  "slots_ok xs \<Longrightarrow> k < length xs \<Longrightarrow>
     (even k \<and> Suc k < length xs \<longrightarrow>
        take 2 (name (xs ! k)) = ''IF'' \<and> conn_type (connection (xs ! k)) = INPUT_VALUE)
   \<and> (even k \<and> \<not> Suc k < length xs \<longrightarrow>
        name (xs ! k) = ''ELSE'' \<and> conn_type (connection (xs ! k)) = NEXT_STATEMENT)
   \<and> (odd k \<longrightarrow>
        take 2 (name (xs ! k)) = ''DO'' \<and> conn_type (connection (xs ! k)) = NEXT_STATEMENT)"
proof (induction xs arbitrary: k rule: slots_ok.induct)
  case 1
  then show ?case by simp
next
  case (2 e)
  then show ?case by simp
next
  case (3 x y rest)
  show ?case
  proof (cases k)
    case 0
    then show ?thesis using 3 by simp
  next
    case (Suc k1)
    show ?thesis
    proof (cases k1)
      case 0
      then show ?thesis using 3 Suc by simp
    next
      case (Suc k2)
      then have "k = Suc (Suc k2)" using \<open>k = Suc k1\<close> by simp
      then show ?thesis using 3 by simp
    qed
  qed
qed

lemma IF_not_ELSE: "take 2 nm = ''IF'' \<Longrightarrow> ''ELSE'' \<noteq> nm"
  by auto

lemma slots_ok_names_nonempty: "slots_ok xs \<Longrightarrow> [] \<notin> name ` set xs"
  by (induction xs rule: slots_ok.induct) auto

lemma slots_ok_else_odd: "slots_ok xs \<Longrightarrow> ''ELSE'' \<in> name ` set xs \<Longrightarrow> odd (length xs)"
  by (induction xs rule: slots_ok.induct) (auto dest: IF_not_ELSE)

lemma slots_ok_odd_else: "slots_ok xs \<Longrightarrow> odd (length xs) \<Longrightarrow> ''ELSE'' \<in> name ` set xs"
  by (induction xs rule: slots_ok.induct) (auto dest: IF_not_ELSE)

lemma slots_ok_append_else:
  "slots_ok xs \<Longrightarrow> even (length xs) \<Longrightarrow> name e = ''ELSE'' \<Longrightarrow>
   conn_type (connection e) = NEXT_STATEMENT \<Longrightarrow> slots_ok (xs @ [e])"
  by (induction xs rule: slots_ok.induct) auto

lemma starts_IF_includes: "take 2 nm = ''IF'' \<Longrightarrow> str_includes nm ''IF''"
proof -
  assume a: "take 2 nm = ''IF''"
  then obtain r where "nm = ''IF'' @ r"
    by (metis append_take_drop_id)
  then show ?thesis by simp
qed

lemma find_conn_index_nth:
  "distinct (map (\<lambda>i. conn_id (connection i)) xs) \<Longrightarrow> k < length xs \<Longrightarrow>
   find_conn_index xs i (connection (xs ! k)) = Some (i + k)"
proof (induction xs arbitrary: i k)
  case Nil
  then show ?case by simp
next
  case (Cons a xs)
  show ?case
  proof (cases k)
    case 0
    then show ?thesis by simp
  next
    case (Suc k1)
    then have "xs ! k1 \<in> set xs" using Cons.prems by simp
    then have "conn_id (connection a) \<noteq> conn_id (connection (xs ! k1))"
      using Cons.prems(1) by auto
    then show ?thesis using Cons Suc by simp
  qed
qed

lemma find_conn_index_None:
  "conn_id c \<notin> (\<lambda>i. conn_id (connection i)) ` set xs \<Longrightarrow> find_conn_index xs i c = None"
  by (induction xs arbitrary: i) auto

lemma find_conn_index_Some:
  "find_conn_index xs i c = Some k \<Longrightarrow> i \<le> k \<and> k < i + length xs
     \<and> conn_id (connection (xs ! (k - i))) = conn_id c"
proof (induction xs arbitrary: i)
  case Nil
  then show ?case by simp
next
  case (Cons a xs)
  show ?case
  proof (cases "conn_id (connection a) = conn_id c")
    case True
    then show ?thesis using Cons.prems by simp
  next
    case False
    then have "find_conn_index xs (Suc i) c = Some k" using Cons.prems by simp
    from Cons.IH [OF this] show ?thesis
      by (auto simp: Suc_diff_le)
  qed
qed

lemma well_formed_append_else:
  assumes "well_formed b" and "''ELSE'' \<notin> set (names b)"
  shows "well_formed (appendStatementInput b ''ELSE'')"
proof -
  have ok: "slots_ok (inputList b)" and len: "2 \<le> length (inputList b)"
    and dn: "distinct (names b)" and ids: "ids_ok b"
    and dt: "distinct (map target_id (attached (inputList b)))"
    using assms(1) by (simp_all add: well_formed_def)
  have ev: "even (length (inputList b))"
    using slots_ok_odd_else [OF ok] assms(2) by (auto simp: names_def)
  have "slots_ok (inputList b @ [new_input ''ELSE'' NEXT_STATEMENT (fresh_id b)])"
    by (rule slots_ok_append_else [OF ok ev]) (simp_all add: new_input_def)
  moreover have "ids_ok (appendStatementInput b ''ELSE'')"
    using ids
    by (auto simp: ids_ok_def appendStatementInput_def appendInput_def new_input_def
        list_all_iff less_Suc_eq)
  moreover have "attached (inputList b @ [new_input ''ELSE'' NEXT_STATEMENT (fresh_id b)])
                   = attached (inputList b)"
    by (simp add: attached_def new_input_def opt_list_def)
  ultimately show ?thesis
    using len dn dt assms(2)
    by (simp add: well_formed_def appendStatementInput_def appendInput_def names_def
        new_input_def)
qed

subsection \<open>The pending-connection heuristic\<close>

text \<open>The first step of the heuristic, once done, is not done again.\<close>

lemma onPendingConnection_step1:
  "onPendingConnection b c uid =
     onPendingConnection
       (if conn_type c = NEXT_STATEMENT \<and> ''ELSE'' \<notin> set (names b)
        then appendStatementInput b ''ELSE'' else b) c uid"
proof (cases "conn_type c = NEXT_STATEMENT \<and> ''ELSE'' \<notin> set (names b)")
  case True
  have "getInput (appendStatementInput b ''ELSE'') ''ELSE'' \<noteq> None"
    by (simp add: getInput_None_iff names_def appendStatementInput_def appendInput_def
        new_input_def)
  moreover from True have "conn_type c = NEXT_STATEMENT" and "''ELSE'' \<notin> set (names b)"
    by simp_all
  ultimately show ?thesis
    by (simp add: onPendingConnection_def getInput_None_iff)
next
  case False
  then show ?thesis by auto
qed

text \<open>The heuristic on a block on which its first step has nothing to do.\<close>

lemma onPendingConnection_settled:
  assumes "conn_type c = NEXT_STATEMENT \<longrightarrow> ''ELSE'' \<in> set (names b)"
  shows "onPendingConnection b c uid =
     (case findInputIndexForConnection b c of
        None \<Rightarrow> Some b
      | Some k \<Rightarrow>
          if targetConnection c \<noteq> None \<and> str_includes (name (inputList b ! k)) ''IF'' then
            (if length (inputList b) \<le> k + 2 \<or> name (inputList b ! (k + 2)) = ''ELSE''
             then map_option fst (insertElseIf b (k + 2) uid)
             else (case targetConnection (connection (inputList b ! (k + 2))) of
                     None \<Rightarrow> Some b
                   | Some t \<Rightarrow> if \<not> isInsertionMarker t
                               then map_option fst (insertElseIf b (k + 2) uid)
                               else Some b))
          else Some b)"
proof (cases "conn_type c = NEXT_STATEMENT")
  case True
  with assms have "''ELSE'' \<in> set (names b)" by simp
  then show ?thesis
    by (simp add: onPendingConnection_def getInput_None_iff Let_def split: option.split)
next
  case False
  then show ?thesis
    by (simp add: onPendingConnection_def getInput_None_iff Let_def split: option.split)
qed

text \<open>After a case was inserted two slots behind the hovered one, a second hover inserts nothing.\<close>

lemma onPendingConnection_after_insert:
  assumes settled: "conn_type c = NEXT_STATEMENT \<longrightarrow> ''ELSE'' \<in> set (names b)"
    and dist: "distinct (map (\<lambda>i. conn_id (connection i)) (inputList b))"
    and k: "k < length (inputList b)" "k + 2 \<le> length (inputList b)"
    and c: "c = connection (inputList b ! k)"
    and b1: "b1 = b\<lparr>inputList := take (k + 2) (inputList b)
                      @ [new_input (''IF'' @ uid) INPUT_VALUE (fresh_id b),
                         new_input (''DO'' @ uid) NEXT_STATEMENT (Suc (fresh_id b))]
                      @ drop (k + 2) (inputList b),
                    fresh_id := Suc (Suc (fresh_id b))\<rparr>"
  shows "onPendingConnection b1 c uid' = Some b1"
proof -
  define xs where "xs = inputList b"
  define I where "I = new_input (''IF'' @ uid) INPUT_VALUE (fresh_id b)"
  define D where "D = new_input (''DO'' @ uid) NEXT_STATEMENT (Suc (fresh_id b))"
  have l1: "inputList b1 = take (k + 2) xs @ [I, D] @ drop (k + 2) xs"
    by (simp add: b1 xs_def I_def D_def)
  have settled1: "conn_type c = NEXT_STATEMENT \<longrightarrow> ''ELSE'' \<in> set (names b1)"
  proof
    assume "conn_type c = NEXT_STATEMENT"
    with settled have "''ELSE'' \<in> name ` set xs" by (simp add: names_def xs_def)
    also have "set xs = set (take (k + 2) xs) \<union> set (drop (k + 2) xs)"
      by (metis append_take_drop_id set_append)
    finally show "''ELSE'' \<in> set (names b1)" by (auto simp: names_def l1)
  qed
  have dtake: "distinct (map (\<lambda>i. conn_id (connection i)) (take (k + 2) xs))"
    using dist by (simp add: xs_def distinct_take take_map [symmetric])
  have ktake: "k < length (take (k + 2) xs)" using k by (simp add: xs_def)
  have ctake: "c = connection (take (k + 2) xs ! k)" using c by (simp add: xs_def)
  have f1: "find_conn_index (take (k + 2) xs) 0 c = Some k"
    using find_conn_index_nth [OF dtake ktake, of 0] by (simp add: ctake)
  have find: "findInputIndexForConnection b1 c = Some k"
    using f1 by (simp add: findInputIndexForConnection_def l1 find_conn_index_append)
  have len: "length (inputList b1) = length xs + 2" using k by (simp add: l1 xs_def)
  have nth: "inputList b1 ! (k + 2) = I"
    using k by (simp add: l1 nth_append xs_def)
  have nI: "name I \<noteq> ''ELSE''" and tI: "targetConnection (connection I) = None"
    by (simp_all add: I_def new_input_def)
  show ?thesis
    unfolding onPendingConnection_settled [OF settled1] find
    using k nI tI len nth by (simp add: xs_def)
qed

lemma well_formed_facts:
  assumes "well_formed b"
  shows "slots_ok (inputList b)" and "distinct (names b)" and "[] \<notin> name ` set (inputList b)"
    and "distinct (map (\<lambda>i. conn_id (connection i)) (inputList b))"
    and "conn_id (nextConnection b) \<notin> (\<lambda>i. conn_id (connection i)) ` set (inputList b)"
    and "conn_id (previousConnection b) \<notin> (\<lambda>i. conn_id (connection i)) ` set (inputList b)"
    and "2 \<le> length (inputList b)"
  using assms slots_ok_names_nonempty [of "inputList b"]
  by (auto simp: well_formed_def ids_ok_def)

text \<open>A hovered input whose name contains IF is not the last input once the first step is done.\<close>

lemma hovered_not_last:
  assumes ok: "slots_ok xs" and k: "k < length xs"
    and inc: "str_includes (name (xs ! k)) ''IF''"
    and settled: "conn_type (connection (xs ! k)) = NEXT_STATEMENT \<longrightarrow> ''ELSE'' \<in> name ` set xs"
  shows "Suc k < length xs"
proof (cases "even k")
  case True
  show ?thesis
  proof (rule ccontr)
    assume "\<not> Suc k < length xs"
    then have "name (xs ! k) = ''ELSE''" using slots_ok_nth [OF ok k] True by simp
    then show False using inc by simp
  qed
next
  case False
  then have "conn_type (connection (xs ! k)) = NEXT_STATEMENT"
    using slots_ok_nth [OF ok k] by simp
  then have odd: "odd (length xs)" using settled slots_ok_else_odd [OF ok] by simp
  have "Suc k \<noteq> length xs"
  proof
    assume e: "Suc k = length xs"
    from odd have "odd (Suc k)" by (simp add: e)
    with False show False by simp
  qed
  then show ?thesis using k by simp
qed

lemma hover_twice_settled:
  assumes wf: "well_formed b"
    and settled: "conn_type c = NEXT_STATEMENT \<longrightarrow> ''ELSE'' \<in> set (names b)"
    and c_on: "c \<in> connection ` set (inputList b) \<or> c = nextConnection b
               \<or> c = previousConnection b"
    and fresh: "''IF'' @ uid \<notin> set (names b)" "''DO'' @ uid \<notin> set (names b)"
  shows "\<exists>b1. onPendingConnection b c uid = Some b1 \<and> onPendingConnection b1 c uid' = Some b1"
proof (cases "c \<in> connection ` set (inputList b)")
  case False
  with c_on have "conn_id c \<notin> (\<lambda>i. conn_id (connection i)) ` set (inputList b)"
    using well_formed_facts(5,6) [OF wf] by auto
  then have "findInputIndexForConnection b c = None"
    by (simp add: findInputIndexForConnection_def find_conn_index_None)
  then have "onPendingConnection b c u = Some b" for u
    by (simp add: onPendingConnection_settled [OF settled])
  then show ?thesis by simp
next
  case True
  then obtain k where k: "k < length (inputList b)" and c: "c = connection (inputList b ! k)"
    by (auto simp: in_set_conv_nth)
  have find: "findInputIndexForConnection b c = Some k"
    using find_conn_index_nth [OF well_formed_facts(4) [OF wf] k, of 0]
    by (simp add: findInputIndexForConnection_def c)
  define ins where "ins \<longleftrightarrow>
     targetConnection c \<noteq> None \<and> str_includes (name (inputList b ! k)) ''IF''
     \<and> (length (inputList b) \<le> k + 2 \<or> name (inputList b ! (k + 2)) = ''ELSE''
        \<or> (\<exists>t. targetConnection (connection (inputList b ! (k + 2))) = Some t
                \<and> \<not> isInsertionMarker t))"
  show ?thesis
  proof (cases ins)
    case False
    have "onPendingConnection b c u = Some b" for u
      using False unfolding onPendingConnection_settled [OF settled] find ins_def
      by (auto split: option.splits)
    then show ?thesis by simp
  next
    case True
    then have inc: "str_includes (name (inputList b ! k)) ''IF''" by (simp add: ins_def)
    have "conn_type (connection (inputList b ! k)) = NEXT_STATEMENT
            \<longrightarrow> ''ELSE'' \<in> name ` set (inputList b)"
      using settled by (simp add: c names_def)
    from hovered_not_last [OF well_formed_facts(1) [OF wf] k inc this]
    have k2: "k + 2 \<le> length (inputList b)" by simp
    define b1 where "b1 = b\<lparr>inputList := take (k + 2) (inputList b)
                      @ [new_input (''IF'' @ uid) INPUT_VALUE (fresh_id b),
                         new_input (''DO'' @ uid) NEXT_STATEMENT (Suc (fresh_id b))]
                      @ drop (k + 2) (inputList b),
                    fresh_id := Suc (Suc (fresh_id b))\<rparr>"
    have insert: "insertElseIf b (k + 2) uid = Some (b1, fresh_id b, Suc (fresh_id b))"
      unfolding b1_def
      apply (rule insertElseIf_at [OF k2])
      using well_formed_facts(2,3) [OF wf] fresh by (simp_all add: names_def)
    have once: "onPendingConnection b c uid = Some b1"
      using True insert unfolding onPendingConnection_settled [OF settled] find ins_def
      by (auto split: option.splits)
    have "onPendingConnection b1 c uid' = Some b1"
      by (rule onPendingConnection_after_insert
          [OF settled well_formed_facts(4) [OF wf] k k2 c b1_def])
    with once show ?thesis by simp
  qed
qed

subsection \<open>Decoding the counts\<close>

lemma appendCasesFrom_none: "n < i \<Longrightarrow> appendCasesFrom i n b = b"
  by (simp add: appendCasesFrom.simps)

lemma appendCasesFrom_counts:
  "elseifCount (appendCasesFrom i n b) = elseifCount b
   \<and> elseCount (appendCasesFrom i n b) = elseCount b"
proof (induction i n b rule: appendCasesFrom.induct)
  case (1 i n b)
  show ?case
  proof (cases "i \<le> n")
    case True
    then show ?thesis
      using 1 by (simp add: appendCasesFrom.simps [of i n b] appendStatementInput_def
          appendValueInput_def appendInput_def)
  next
    case False
    then show ?thesis by (simp add: appendCasesFrom.simps [of i n b])
  qed
qed

lemma names_appendCasesFrom:
  "0 \<le> i \<Longrightarrow>
   names (appendCasesFrom i n b)
     = names b @ concat (map (\<lambda>j. [''IF'' @ string_of_nat j, ''DO'' @ string_of_nat j])
                         [nat i..<nat (n + 1)])"
proof (induction i n b rule: appendCasesFrom.induct)
  case (1 i n b)
  show ?case
  proof (cases "i \<le> n")
    case False
    then show ?thesis by (simp add: appendCasesFrom.simps [of i n b])
  next
    case True
    define b1 where "b1 = appendStatementInput
                (appendValueInput b (''IF'' @ string_of_int i)) (''DO'' @ string_of_int i)"
    have soi: "string_of_int i = string_of_nat (nat i)"
      using 1(2) by (simp add: string_of_int_def)
    have n1: "names b1 = names b @ [''IF'' @ string_of_nat (nat i), ''DO'' @ string_of_nat (nat i)]"
      by (simp add: b1_def names_def append_two_inputs new_input_def soi)
    have ih: "names (appendCasesFrom (i + 1) n b1)
                = names b1 @ concat (map (\<lambda>j. [''IF'' @ string_of_nat j, ''DO'' @ string_of_nat j])
                         [nat (i + 1)..<nat (n + 1)])"
      using 1(1) [OF True] 1(2) by (simp add: b1_def)
    have suc: "nat (i + 1) = Suc (nat i)" using 1(2) by arith
    have lt: "nat i < nat (n + 1)" using True 1(2) by arith
    have upt: "[nat i..<nat (n + 1)] = nat i # [nat (i + 1)..<nat (n + 1)]"
      unfolding suc using lt by (rule upt_conv_Cons)
    have "appendCasesFrom i n b = appendCasesFrom (i + 1) n b1"
      using True by (simp add: appendCasesFrom.simps [of i n b] b1_def)
    then show ?thesis by (simp add: ih n1 upt)
  qed
qed

lemma no_inputs_attribute:
  "getAttribute e ''inputs'' = None \<Longrightarrow> domToMutation b e = Some (deserializeCounts b e)"
  by (simp add: domToMutation_def)

text \<open>Decoding the canonical form of the counts \<open>k\<close> and \<open>c\<close>.\<close>

lemma deserializeCounts_canonical:
  assumes "or_zero (parseInt (attribute_or_zero e ''elseif'')) = int k"
    and "or_zero (parseInt (attribute_or_zero e ''else'')) = c"
  shows "names (deserializeCounts b e)
           = names b @ concat (map (\<lambda>j. [''IF'' @ string_of_nat j, ''DO'' @ string_of_nat j])
                                [1..<Suc k])
             @ (if c \<noteq> 0 then [''ELSE''] else [])"
    and "elseifCount (deserializeCounts b e) = int k"
    and "elseCount (deserializeCounts b e) = c"
proof -
  define b2 where "b2 = b\<lparr>elseifCount := int k, elseCount := c\<rparr>"
  have n2: "names (appendCasesFrom 1 (int k) b2)
             = names b @ concat (map (\<lambda>j. [''IF'' @ string_of_nat j, ''DO'' @ string_of_nat j])
                                [1..<Suc k])"
    using names_appendCasesFrom [of 1 "int k" b2]
    by (simp add: b2_def names_def nat_add_distrib)
  have cnt: "elseifCount (appendCasesFrom 1 (int k) b2) = int k"
    "elseCount (appendCasesFrom 1 (int k) b2) = c"
    by (simp_all add: appendCasesFrom_counts b2_def)
  have d: "deserializeCounts b e =
        (if c \<noteq> 0 then appendStatementInput (appendCasesFrom 1 (int k) b2) ''ELSE''
         else appendCasesFrom 1 (int k) b2)"
    using assms cnt by (simp add: deserializeCounts_def Let_def b2_def)
  show "names (deserializeCounts b e)
           = names b @ concat (map (\<lambda>j. [''IF'' @ string_of_nat j, ''DO'' @ string_of_nat j])
                                [1..<Suc k])
             @ (if c \<noteq> 0 then [''ELSE''] else [])"
    using n2 by (simp add: d names_def appendStatementInput_def appendInput_def new_input_def)
  show "elseifCount (deserializeCounts b e) = int k"
    using cnt by (simp add: d appendStatementInput_def appendInput_def)
  show "elseCount (deserializeCounts b e) = c"
    using cnt by (simp add: d appendStatementInput_def appendInput_def)
qed

subsection \<open>The steps of the rebuild\<close>

lemma deleteFrom_keeps_two:
  "inputList b = xs \<Longrightarrow> distinct (map name xs) \<Longrightarrow>
   deleteFrom (length xs - 1) b = Some (b\<lparr>inputList := take 2 xs\<rparr>)"
proof (induction xs arbitrary: b rule: rev_induct)
  case Nil
  then show ?case by (simp add: deleteFrom.simps)
next
  case (snoc z ys)
  show ?case
  proof (cases "length ys < 2")
    case True
    then show ?thesis using snoc.prems(1) by (simp add: deleteFrom.simps)
  next
    case False
    have fresh: "name z \<notin> name ` set ys" using snoc.prems(2) by auto
    have rm: "removeInput b (name z) = Some (b\<lparr>inputList := ys\<rparr>)"
      using remove_named_first [of z ys "[]", OF fresh] snoc.prems(1)
      by (simp add: removeInput_def)
    have dist: "distinct (map name ys)" using snoc.prems(2) by simp
    have ih: "deleteFrom (length ys - 1) (b\<lparr>inputList := ys\<rparr>)
                = Some (b\<lparr>inputList := take 2 ys\<rparr>)"
      using snoc.IH [of "b\<lparr>inputList := ys\<rparr>"] dist by simp
    have "deleteFrom (length ys) b = Some (b\<lparr>inputList := take 2 ys\<rparr>)"
      using False rm ih snoc.prems(1) by (simp add: deleteFrom.simps [of "length ys" b])
    then show ?thesis using False by simp
  qed
qed

lemma deleteDynamicInputs_keeps_two:
  "distinct (names b) \<Longrightarrow> deleteDynamicInputs b = Some (b\<lparr>inputList := take 2 (inputList b)\<rparr>)"
  using deleteFrom_keeps_two [of b "inputList b"]
  by (simp add: deleteDynamicInputs_def names_def)

lemma set_target_same: "targetConnection (connection i) = t \<Longrightarrow> set_target t i = i"
  by (simp add: set_target_def)

lemma set_target_fields [simp]:
  "name (set_target t i) = name i"
  "conn_id (connection (set_target t i)) = conn_id (connection i)"
  "conn_type (connection (set_target t i)) = conn_type (connection i)"
  "targetConnection (connection (set_target t i)) = t"
  by (simp_all add: set_target_def)

lemma unplug_fields [simp]:
  "name (unplug t i) = name i"
  "conn_id (connection (unplug t i)) = conn_id (connection i)"
  "conn_type (connection (unplug t i)) = conn_type (connection i)"
  by (simp_all add: unplug_def)

lemma unplug_opt_fields [simp]:
  "name (unplug_opt t i) = name i"
  "conn_id (connection (unplug_opt t i)) = conn_id (connection i)"
  "conn_type (connection (unplug_opt t i)) = conn_type (connection i)"
  by (simp_all add: unplug_opt_def split: option.split)

lemma unplug_other: "targetConnection (connection i) \<noteq> Some t \<Longrightarrow> unplug t i = i"
  by (simp add: unplug_def)

lemma unplug_opt_other:
  "targetConnection (connection i) = None \<or> targetConnection (connection i) \<noteq> t \<Longrightarrow>
   unplug_opt t i = i"
  by (auto simp: unplug_opt_def unplug_def split: option.split)

lemma unplug_opt_target:
  "targetConnection (connection (unplug_opt t i)) =
     (if t \<noteq> None \<and> targetConnection (connection i) = t then None
      else targetConnection (connection i))"
  by (auto simp: unplug_opt_def unplug_def split: option.split)

text \<open>Plugging a target into the one input that owns the connection.\<close>

lemma connect_opt_inputs:
  assumes L: "inputList b = pre @ x # post"
    and x: "conn_id (connection x) = cid"
    and others: "\<forall>i \<in> set pre \<union> set post. conn_id (connection i) \<noteq> cid"
    and pre: "\<forall>i \<in> set pre. targetConnection (connection i) = None
                \<or> targetConnection (connection i) \<noteq> t"
    and tx: "targetConnection (connection x) = None \<or> targetConnection (connection x) = t"
  shows "connect_opt b cid t = b\<lparr>inputList := pre @ set_target t x # map (unplug_opt t) post\<rparr>"
proof (cases t)
  case None
  have "map (unplug_opt None) post = post" by (rule map_idI) (simp add: unplug_opt_def)
  moreover have "set_target None x = x" using tx None by (simp add: set_target_same)
  ultimately show ?thesis using None L by (simp add: connect_opt_def)
next
  case (Some tc)
  have p: "map (\<lambda>i. if conn_id (connection i) = cid then set_target (Some tc) i else unplug tc i) pre
             = pre"
    using others pre Some by (intro map_idI) (auto simp: unplug_def)
  have q: "map (\<lambda>i. if conn_id (connection i) = cid then set_target (Some tc) i else unplug tc i) post
             = map (unplug_opt (Some tc)) post"
    using others by (intro map_cong) (auto simp: unplug_opt_def)
  show ?thesis using Some L x p q by (simp add: connect_opt_def connect_def)
qed

lemma connect_pair:
  assumes L: "inputList b = pre @ X # Y # post"
    and idX: "conn_id (connection X) = f" and idY: "conn_id (connection Y) = g"
    and fg: "f \<noteq> g"
    and others: "\<forall>i \<in> set pre \<union> set post.
                   conn_id (connection i) \<noteq> f \<and> conn_id (connection i) \<noteq> g"
    and pre: "\<forall>i \<in> set pre. targetConnection (connection i) = None
                \<or> (targetConnection (connection i) \<noteq> it
                    \<and> targetConnection (connection i) \<noteq> dt)"
    and tX: "targetConnection (connection X) = None \<or> targetConnection (connection X) = it"
    and tY: "targetConnection (connection Y) = None \<or> targetConnection (connection Y) = dt"
    and diff: "it = None \<or> it \<noteq> dt"
  shows "connect_opt (connect_opt b f it) g dt =
           b\<lparr>inputList := pre @ set_target it X # set_target dt Y
                             # map (\<lambda>i. unplug_opt dt (unplug_opt it i)) post\<rparr>"
proof -
  have yit: "unplug_opt it Y = Y"
    using tY diff by (intro unplug_opt_other) auto
  have s1: "connect_opt b f it
              = b\<lparr>inputList := (pre @ [set_target it X]) @ Y # map (unplug_opt it) post\<rparr>"
    using connect_opt_inputs [of b pre X "Y # post" f it] L idX idY fg others pre tX yit
    by auto
  define b1 where "b1 = b\<lparr>inputList := (pre @ [set_target it X]) @ Y # map (unplug_opt it) post\<rparr>"
  have L1: "inputList b1 = (pre @ [set_target it X]) @ Y # map (unplug_opt it) post"
    by (simp add: b1_def)
  have s2: "connect_opt b1 g dt
              = b1\<lparr>inputList := (pre @ [set_target it X]) @ set_target dt Y
                                   # map (unplug_opt dt) (map (unplug_opt it) post)\<rparr>"
    apply (rule connect_opt_inputs [OF L1 idY])
    using others idX fg pre diff tY by auto
  show ?thesis
    unfolding s1 b1_def [symmetric] s2 by (simp add: b1_def)
qed

lemma case_slots_append:
  "case_slots k (qs @ ps) = case_slots k qs @ case_slots (k + length qs) ps"
  by (induction qs arbitrary: k) auto

lemma case_slots_length: "length (case_slots k ps) = 2 * length ps"
  by (induction ps arbitrary: k) auto

lemma case_slots_names:
  "fst ` set (case_slots k ps)
     = (\<Union>j \<in> {k..<k + length ps}. {''IF'' @ string_of_nat j, ''DO'' @ string_of_nat j})"
proof (induction ps arbitrary: k)
  case Nil
  then show ?case by simp
next
  case (Cons p ps)
  have "{k..<k + length (p # ps)} = insert k {Suc k..<Suc k + length ps}" by auto
  then show ?case using Cons [of "Suc k"] by auto
qed

lemma pair_targets_simps [simp]:
  "pair_targets [] = []"
  "pair_targets (p # ps) = opt_list (ifTarget p) @ opt_list (doTarget p) @ pair_targets ps"
  "pair_targets (qs @ ps) = pair_targets qs @ pair_targets ps"
  by (simp_all add: pair_targets_def)

lemma case_slots_targets:
  "(nm, Some t) \<in> set (case_slots k ps) \<Longrightarrow> t \<in> set (pair_targets ps)"
  by (induction ps arbitrary: k) (auto simp: opt_list_def)

lemma opt_list_set [simp]: "t \<in> set (opt_list v) \<longleftrightarrow> v = Some t"
  by (auto simp: opt_list_def split: option.split)

lemma slot_in_set: "i \<in> set xs \<Longrightarrow> slot i \<in> set (map slot xs)"
  by simp

text \<open>The targets held by inputs whose slots are those of the cases \<open>qs\<close>.\<close>

lemma held_targets:
  assumes "map slot xs = case_slots k qs" and "i \<in> set xs"
    and "targetConnection (connection i) = Some t"
  shows "t \<in> set (pair_targets qs)"
proof -
  have "(name i, Some t) \<in> set (map slot xs)"
    using assms(2,3) by (force simp: slot_def)
  then show ?thesis using assms(1) case_slots_targets by metis
qed

lemma slot_names: "name ` set xs = fst ` set (map slot xs)"
  by (force simp: slot_def)

lemma string_of_nat_eq_iff [simp]: "string_of_nat m = string_of_nat n \<longleftrightarrow> m = n"
  using string_of_nat_inj by auto

lemma addCasesFrom_step:
  "addCasesFrom i (p # ps) b =
     (case (case (getInput b (''IF'' @ string_of_nat i), getInput b (''DO'' @ string_of_nat i)) of
              (Some ifInput, Some doInput) \<Rightarrow>
                Some (b, conn_id (connection ifInput), conn_id (connection doInput))
            | _ \<Rightarrow> insertElseIf b (i * 2) (string_of_nat i)) of
        None \<Rightarrow> None
      | Some (b1, ifId, doId) \<Rightarrow>
          addCasesFrom (Suc i) ps
            (connect_opt (connect_opt b1 ifId (ifTarget p)) doId (doTarget p)))"
  by (simp add: Let_def)

text \<open>Adding the remaining cases behind the cases \<open>0..i-1\<close> that are already in place.\<close>

lemma addCasesFrom_canonical:
  assumes "map slot (inputList b) = case_slots 0 qs"
    and "ids_ok b"
    and "distinct (pair_targets (qs @ ps))"
    and "typed_ok (inputList b)"
  shows "\<exists>b'. addCasesFrom (length qs) ps b = Some b'
           \<and> map slot (inputList b') = case_slots 0 (qs @ ps) \<and> ids_ok b'
           \<and> typed_ok (inputList b')"
  using assms
proof (induction ps arbitrary: b qs)
  case Nil
  then show ?case by simp
next
  case (Cons p ps)
  define i where "i = length qs"
  define xs where "xs = inputList b"
  define f where "f = fresh_id b"
  define I where "I = new_input (''IF'' @ string_of_nat i) INPUT_VALUE f"
  define D where "D = new_input (''DO'' @ string_of_nat i) NEXT_STATEMENT (Suc f)"
  define b1 where "b1 = b\<lparr>inputList := xs @ [I, D], fresh_id := Suc (Suc f)\<rparr>"
  have sl: "map slot xs = case_slots 0 qs" using Cons.prems(1) by (simp add: xs_def)
  have len: "length xs = i * 2"
    using arg_cong [OF sl, of length] by (simp add: case_slots_length i_def)
  have names: "name ` set xs
                 = (\<Union>j \<in> {0..<i}. {''IF'' @ string_of_nat j, ''DO'' @ string_of_nat j})"
    unfolding slot_names sl case_slots_names by (simp add: i_def)
  have "''IF'' @ string_of_nat i \<notin> name ` set xs" unfolding names by auto
  then have get: "getInput b (''IF'' @ string_of_nat i) = None"
    by (simp add: getInput_def find_name_None xs_def)
  have ins: "insertElseIf b (i * 2) (string_of_nat i) = Some (b1, f, Suc f)"
    using insertElseIf_end [of b "string_of_nat i"] len
    by (simp add: xs_def b1_def I_def D_def f_def)
  have ids: "\<forall>x \<in> set xs. conn_id (connection x) < f"
    using Cons.prems(2) by (simp add: ids_ok_def list_all_iff xs_def f_def)
  have dist: "distinct (pair_targets qs @ opt_list (ifTarget p) @ opt_list (doTarget p))"
    using Cons.prems(3) by auto
  have held: "\<forall>x \<in> set xs. targetConnection (connection x) = None
                \<or> (targetConnection (connection x) \<noteq> ifTarget p
                    \<and> targetConnection (connection x) \<noteq> doTarget p)"
  proof
    fix x assume x: "x \<in> set xs"
    show "targetConnection (connection x) = None
                \<or> (targetConnection (connection x) \<noteq> ifTarget p
                    \<and> targetConnection (connection x) \<noteq> doTarget p)"
    proof (cases "targetConnection (connection x)")
      case None
      then show ?thesis by simp
    next
      case (Some t)
      from held_targets [OF sl x Some] have "t \<in> set (pair_targets qs)" .
      then show ?thesis using dist Some by auto
    qed
  qed
  have diff: "ifTarget p = None \<or> ifTarget p \<noteq> doTarget p"
    using dist by (cases "ifTarget p"; cases "doTarget p") (auto simp: opt_list_def)
  define b3 where "b3 = connect_opt (connect_opt b1 f (ifTarget p)) (Suc f) (doTarget p)"
  have L1: "inputList b1 = xs @ I # D # []" by (simp add: b1_def)
  have b3: "b3 = b1\<lparr>inputList := xs @ set_target (ifTarget p) I # set_target (doTarget p) D
                                  # map (\<lambda>i. unplug_opt (doTarget p) (unplug_opt (ifTarget p) i)) []\<rparr>"
    unfolding b3_def
    apply (rule connect_pair [OF L1])
    using ids held diff by (auto simp: I_def D_def new_input_def)
  have sl3: "map slot (inputList b3) = case_slots 0 (qs @ [p])"
    by (simp add: b3 sl case_slots_append slot_def I_def D_def new_input_def i_def)
  have ids3: "ids_ok b3"
    using Cons.prems(2) ids
    by (auto simp: b3 b1_def ids_ok_def list_all_iff xs_def [symmetric] f_def [symmetric]
        I_def D_def new_input_def less_Suc_eq)
  have dist3: "distinct (pair_targets ((qs @ [p]) @ ps))" using Cons.prems(3) by simp
  have typed3: "typed_ok (inputList b3)"
    using Cons.prems(4)
    by (simp add: b3 b1_def typed_ok_def xs_def [symmetric] I_def D_def new_input_def)
  from Cons.IH [OF sl3 ids3 dist3 typed3]
  obtain b' where b': "addCasesFrom (Suc i) ps b3 = Some b'"
      "map slot (inputList b') = case_slots 0 (qs @ p # ps)" "ids_ok b'"
      "typed_ok (inputList b')"
    by (auto simp: i_def)
  have "addCasesFrom i (p # ps) b = addCasesFrom (Suc i) ps b3"
    unfolding addCasesFrom_step get ins b3_def by simp
  then show ?case using b' by (simp add: i_def)
qed

lemma slots_two_behind:
  assumes "map slot xs = vs @ [s1, s2]"
  shows "\<exists>pre A B. xs = pre @ [A, B] \<and> map slot pre = vs \<and> slot A = s1 \<and> slot B = s2"
proof -
  from assms obtain pre post where xs: "xs = pre @ post" and pre: "map slot pre = vs"
    and post: "map slot post = [s1, s2]"
    by (auto simp: map_eq_append_conv)
  from post obtain A B where "post = [A, B]" "slot A = s1" "slot B = s2"
    by (auto simp: map_eq_Cons_conv)
  with xs pre show ?thesis by auto
qed

text \<open>
  Adding the remaining cases when an empty case of another discriminator stands behind the
  cases \<open>0..i-1\<close>: it is taken over when its number comes up, and left at the end otherwise.
\<close>

lemma addCasesFrom_leftover:
  assumes "map slot (inputList b) = case_slots 0 qs @ empty_case a"
    and "a \<notin> string_of_nat ` {..<length qs}"
    and "ids_ok b"
    and "distinct (pair_targets (qs @ ps))"
    and "typed_ok (inputList b)"
  shows "\<exists>b'. addCasesFrom (length qs) ps b = Some b'
           \<and> map slot (inputList b')
               = case_slots 0 (qs @ ps)
                 @ (if a \<in> string_of_nat ` {length qs..<length qs + length ps} then []
                    else empty_case a)
           \<and> ids_ok b' \<and> typed_ok (inputList b')"
  using assms
proof (induction ps arbitrary: b qs)
  case Nil
  then show ?case by simp
next
  case (Cons p ps)
  define i where "i = length qs"
  define f where "f = fresh_id b"
  from slots_two_behind [OF Cons.prems(1) [unfolded empty_case_def]]
  obtain pre A B where L: "inputList b = pre @ [A, B]" and sl: "map slot pre = case_slots 0 qs"
    and sA: "slot A = (''IF'' @ a, None)" and sB: "slot B = (''DO'' @ a, None)"
    by blast
  have nA: "name A = ''IF'' @ a" and tA: "targetConnection (connection A) = None"
    and nB: "name B = ''DO'' @ a" and tB: "targetConnection (connection B) = None"
    using sA sB by (simp_all add: slot_def)
  have len: "length pre = i * 2"
    using arg_cong [OF sl, of length] by (simp add: case_slots_length i_def)
  have names: "name ` set pre
                 = (\<Union>j \<in> {0..<i}. {''IF'' @ string_of_nat j, ''DO'' @ string_of_nat j})"
    unfolding slot_names sl case_slots_names by (simp add: i_def)
  have if_pre: "''IF'' @ string_of_nat i \<notin> name ` set pre"
    and do_pre: "''DO'' @ string_of_nat i \<notin> name ` set pre"
    unfolding names by auto
  have a_pre: "''IF'' @ a \<notin> name ` set pre"
    unfolding names using Cons.prems(2) by (auto simp: i_def)
  have ids: "\<forall>x \<in> set (inputList b). conn_id (connection x) < f"
    using Cons.prems(3) by (simp add: ids_ok_def list_all_iff f_def)
  have dids: "distinct (map (\<lambda>i. conn_id (connection i)) (pre @ [A, B]))"
    using Cons.prems(3) by (simp add: ids_ok_def L)
  have dist: "distinct (pair_targets qs @ opt_list (ifTarget p) @ opt_list (doTarget p))"
    using Cons.prems(4) by auto
  have held: "\<forall>x \<in> set pre. targetConnection (connection x) = None
                \<or> (targetConnection (connection x) \<noteq> ifTarget p
                    \<and> targetConnection (connection x) \<noteq> doTarget p)"
  proof
    fix x assume x: "x \<in> set pre"
    show "targetConnection (connection x) = None
                \<or> (targetConnection (connection x) \<noteq> ifTarget p
                    \<and> targetConnection (connection x) \<noteq> doTarget p)"
    proof (cases "targetConnection (connection x)")
      case None
      then show ?thesis by simp
    next
      case (Some t)
      from held_targets [OF sl x Some] have "t \<in> set (pair_targets qs)" .
      then show ?thesis using dist Some by auto
    qed
  qed
  have diff: "ifTarget p = None \<or> ifTarget p \<noteq> doTarget p"
    using dist by (cases "ifTarget p"; cases "doTarget p") (auto simp: opt_list_def)
  have dist3: "distinct (pair_targets ((qs @ [p]) @ ps))" using Cons.prems(4) by simp
  show ?case
  proof (cases "a = string_of_nat i")
    case True
    have getI: "getInput b (''IF'' @ string_of_nat i) = Some A"
      using find_name_first [of "''IF'' @ string_of_nat i" pre A "[B]"] if_pre nA True
      by (simp add: getInput_def L)
    have getD: "getInput b (''DO'' @ string_of_nat i) = Some B"
      using find_name_first [of "''DO'' @ string_of_nat i" "pre @ [A]" B "[]"] do_pre nA nB True
      by (simp add: getInput_def L)
    define b3 where "b3 = connect_opt (connect_opt b (conn_id (connection A)) (ifTarget p))
                            (conn_id (connection B)) (doTarget p)"
    have L0: "inputList b = pre @ A # B # []" by (simp add: L)
    have b3: "b3 = b\<lparr>inputList := pre @ set_target (ifTarget p) A # set_target (doTarget p) B
                                  # map (\<lambda>i. unplug_opt (doTarget p) (unplug_opt (ifTarget p) i)) []\<rparr>"
    proof -
      have fg: "conn_id (connection A) \<noteq> conn_id (connection B)" using dids by simp
      have others: "\<forall>i \<in> set pre \<union> set [].
                   conn_id (connection i) \<noteq> conn_id (connection A)
                   \<and> conn_id (connection i) \<noteq> conn_id (connection B)"
        using dids by (auto simp: image_iff)
      show ?thesis
        unfolding b3_def
        by (rule connect_pair [OF L0 refl refl fg others held _ _ diff]) (simp_all add: tA tB)
    qed
    have sl3: "map slot (inputList b3) = case_slots 0 (qs @ [p])"
      by (simp add: b3 sl case_slots_append slot_def nA nB True i_def)
    have ids3: "ids_ok b3"
      using Cons.prems(3) by (simp add: b3 ids_ok_def L)
    have typed3: "typed_ok (inputList b3)"
      using Cons.prems(5) by (simp add: b3 typed_ok_def L)
    from addCasesFrom_canonical [OF sl3 ids3 dist3 typed3]
    obtain b' where b': "addCasesFrom (Suc i) ps b3 = Some b'"
        "map slot (inputList b') = case_slots 0 (qs @ p # ps)" "ids_ok b'"
        "typed_ok (inputList b')"
      by (auto simp: i_def)
    have "addCasesFrom i (p # ps) b = addCasesFrom (Suc i) ps b3"
      unfolding addCasesFrom_step getI getD b3_def by simp
    moreover have "a \<in> string_of_nat ` {i..<i + length (p # ps)}"
      using True by simp
    ultimately show ?thesis using b' by (simp add: i_def)
  next
    case False
    define I where "I = new_input (''IF'' @ string_of_nat i) INPUT_VALUE f"
    define D where "D = new_input (''DO'' @ string_of_nat i) NEXT_STATEMENT (Suc f)"
    define b1 where "b1 = b\<lparr>inputList := pre @ [I, D] @ A # [B], fresh_id := Suc (Suc f)\<rparr>"
    have fresh_if: "''IF'' @ string_of_nat i \<notin> name ` set (inputList b)"
      and fresh_do: "''DO'' @ string_of_nat i \<notin> name ` set (inputList b)"
      using if_pre do_pre nA nB False by (auto simp: L)
    have get: "getInput b (''IF'' @ string_of_nat i) = None"
      using fresh_if by (simp add: getInput_def find_name_None)
    have L0: "inputList b = pre @ A # [B]" by (simp add: L)
    have ins: "insertElseIf b (i * 2) (string_of_nat i) = Some (b1, f, Suc f)"
      using insertElseIf_before [OF L0 _ _ _ fresh_if fresh_do] a_pre nA nB len
      by (simp add: b1_def I_def D_def f_def)
    define b3 where "b3 = connect_opt (connect_opt b1 f (ifTarget p)) (Suc f) (doTarget p)"
    have L1: "inputList b1 = pre @ I # D # [A, B]" by (simp add: b1_def)
    have b3': "b3 = b1\<lparr>inputList := pre @ set_target (ifTarget p) I # set_target (doTarget p) D
                                  # map (\<lambda>i. unplug_opt (doTarget p) (unplug_opt (ifTarget p) i)) [A, B]\<rparr>"
      unfolding b3_def
      apply (rule connect_pair [OF L1])
      using ids held diff by (auto simp: I_def D_def new_input_def L)
    have keep: "unplug_opt (doTarget p) (unplug_opt (ifTarget p) A) = A"
      "unplug_opt (doTarget p) (unplug_opt (ifTarget p) B) = B"
      using tA tB by (simp_all add: unplug_opt_other)
    have b3: "b3 = b1\<lparr>inputList := pre @ [set_target (ifTarget p) I, set_target (doTarget p) D, A, B]\<rparr>"
      using b3' keep by simp
    have sl3: "map slot (inputList b3) = case_slots 0 (qs @ [p]) @ empty_case a"
      using sA sB
      by (simp add: b3 sl case_slots_append slot_def I_def D_def new_input_def i_def
          empty_case_def)
    have ids3: "ids_ok b3"
      using Cons.prems(3) ids
      by (auto simp: b3 b1_def ids_ok_def list_all_iff L f_def [symmetric]
          I_def D_def new_input_def less_Suc_eq)
    have a3: "a \<notin> string_of_nat ` {..<length (qs @ [p])}"
      using Cons.prems(2) False by (auto simp: i_def less_Suc_eq)
    have typed3: "typed_ok (inputList b3)"
      using Cons.prems(5)
      by (simp add: b3 b1_def typed_ok_def L I_def D_def new_input_def)
    from Cons.IH [OF sl3 a3 ids3 dist3 typed3]
    obtain b' where b': "addCasesFrom (Suc i) ps b3 = Some b'"
        "map slot (inputList b') = case_slots 0 (qs @ p # ps)
           @ (if a \<in> string_of_nat ` {Suc i..<Suc i + length ps} then [] else empty_case a)"
        "ids_ok b'" "typed_ok (inputList b')"
      by (auto simp: i_def)
    have "addCasesFrom i (p # ps) b = addCasesFrom (Suc i) ps b3"
      unfolding addCasesFrom_step get ins b3_def by simp
    moreover have "a \<in> string_of_nat ` {i..<i + length (p # ps)}
                     \<longleftrightarrow> a \<in> string_of_nat ` {Suc i..<Suc i + length ps}"
    proof -
      have "{i..<i + length (p # ps)} = insert i {Suc i..<Suc i + length ps}" by auto
      then show ?thesis using False by auto
    qed
    ultimately show ?thesis using b' by (simp add: i_def)
  qed
qed

lemma slot_unplugged:
  assumes "targetConnection (connection i) = None \<or> targetConnection (connection i) = t"
  shows "slot (unplug_opt t i) = (name i, None)"
  using assms by (auto simp: slot_def unplug_opt_target)

text \<open>The first case of the list goes to the two inputs that the deletion has kept.\<close>

lemma addCasesFrom_first:
  assumes L: "inputList b = [A, B]"
    and nA: "name A = ''IF'' @ a" and nB: "name B = ''DO'' @ a"
    and ids: "ids_ok b"
    and dist: "distinct (pair_targets (p # ps))"
    and tA: "targetConnection (connection A) = None \<or> targetConnection (connection A) = ifTarget p"
    and tB: "targetConnection (connection B) = None \<or> targetConnection (connection B) = doTarget p"
    and typed: "typed_ok (inputList b)"
  shows "\<exists>b'. addCasesFrom 0 (p # ps) b = Some b'
           \<and> map slot (inputList b')
               = case_slots 0 (p # ps)
                 @ (if a \<in> string_of_nat ` {..<length (p # ps)} then [] else empty_case a)
           \<and> ids_ok b' \<and> typed_ok (inputList b')"
proof -
  define f where "f = fresh_id b"
  have diff: "ifTarget p = None \<or> ifTarget p \<noteq> doTarget p"
    using dist by (cases "ifTarget p"; cases "doTarget p") (auto simp: opt_list_def)
  have dist3: "distinct (pair_targets ([p] @ ps))" using dist by simp
  have idsAB: "conn_id (connection A) \<noteq> conn_id (connection B)"
    "conn_id (connection A) < f" "conn_id (connection B) < f"
    using ids by (simp_all add: ids_ok_def L f_def)
  show ?thesis
  proof (cases "a = string_of_nat 0")
    case True
    have getI: "getInput b (''IF'' @ string_of_nat 0) = Some A"
      using nA True by (simp add: getInput_def L)
    have getD: "getInput b (''DO'' @ string_of_nat 0) = Some B"
      using nA nB True by (simp add: getInput_def L)
    define b3 where "b3 = connect_opt (connect_opt b (conn_id (connection A)) (ifTarget p))
                            (conn_id (connection B)) (doTarget p)"
    have L0: "inputList b = [] @ A # B # []" by (simp add: L)
    have b3: "b3 = b\<lparr>inputList := [] @ set_target (ifTarget p) A # set_target (doTarget p) B
                                  # map (\<lambda>i. unplug_opt (doTarget p) (unplug_opt (ifTarget p) i)) []\<rparr>"
      unfolding b3_def
      by (rule connect_pair [OF L0 refl refl idsAB(1) _ _ tA tB diff]) simp_all
    have sl3: "map slot (inputList b3) = case_slots 0 [p]"
      by (simp add: b3 slot_def nA nB True)
    have ids3: "ids_ok b3"
      using ids by (simp add: b3 ids_ok_def L)
    have typed3: "typed_ok (inputList b3)"
      using typed by (simp add: b3 typed_ok_def L)
    from addCasesFrom_canonical [OF sl3 ids3 dist3 typed3]
    obtain b' where b': "addCasesFrom (Suc 0) ps b3 = Some b'"
        "map slot (inputList b') = case_slots 0 (p # ps)" "ids_ok b'"
        "typed_ok (inputList b')"
      by auto
    have "addCasesFrom 0 (p # ps) b = addCasesFrom (Suc 0) ps b3"
      unfolding addCasesFrom_step getI getD b3_def by simp
    moreover have "a \<in> string_of_nat ` {..<length (p # ps)}"
      using True by auto
    ultimately show ?thesis using b' by simp
  next
    case False
    define I where "I = new_input (''IF'' @ string_of_nat 0) INPUT_VALUE f"
    define D where "D = new_input (''DO'' @ string_of_nat 0) NEXT_STATEMENT (Suc f)"
    define b1 where "b1 = b\<lparr>inputList := [] @ [I, D] @ A # [B], fresh_id := Suc (Suc f)\<rparr>"
    have fresh_if: "''IF'' @ string_of_nat 0 \<notin> name ` set (inputList b)"
      and fresh_do: "''DO'' @ string_of_nat 0 \<notin> name ` set (inputList b)"
      using nA nB False by (auto simp: L)
    have get: "getInput b (''IF'' @ string_of_nat 0) = None"
      using fresh_if by (simp add: getInput_def find_name_None)
    have L0: "inputList b = [] @ A # [B]" by (simp add: L)
    have ins: "insertElseIf b (0 * 2) (string_of_nat 0) = Some (b1, f, Suc f)"
      using insertElseIf_before [OF L0 _ _ _ fresh_if fresh_do] nA nB
      by (simp add: b1_def I_def D_def f_def)
    define b3 where "b3 = connect_opt (connect_opt b1 f (ifTarget p)) (Suc f) (doTarget p)"
    have L1: "inputList b1 = [] @ I # D # [A, B]" by (simp add: b1_def)
    have b3: "b3 = b1\<lparr>inputList := [] @ set_target (ifTarget p) I # set_target (doTarget p) D
                                  # map (\<lambda>i. unplug_opt (doTarget p) (unplug_opt (ifTarget p) i)) [A, B]\<rparr>"
      unfolding b3_def
      apply (rule connect_pair [OF L1])
      using idsAB diff by (auto simp: I_def D_def new_input_def)
    have uA: "targetConnection (connection (unplug_opt (ifTarget p) A)) = None"
      using tA by (auto simp: unplug_opt_target)
    have uB: "targetConnection (connection (unplug_opt (ifTarget p) B)) = None
              \<or> targetConnection (connection (unplug_opt (ifTarget p) B)) = doTarget p"
      using tB by (auto simp: unplug_opt_target)
    have sA: "slot (unplug_opt (doTarget p) (unplug_opt (ifTarget p) A)) = (''IF'' @ a, None)"
      using slot_unplugged [of "unplug_opt (ifTarget p) A" "doTarget p"] uA nA by simp
    have sB: "slot (unplug_opt (doTarget p) (unplug_opt (ifTarget p) B)) = (''DO'' @ a, None)"
      using slot_unplugged [OF uB] nB by simp
    have sl3: "map slot (inputList b3) = case_slots 0 [p] @ empty_case a"
      using sA sB
      by (simp add: b3 slot_def I_def D_def new_input_def empty_case_def)
    have ids3: "ids_ok b3"
      using ids idsAB
      by (auto simp: b3 b1_def ids_ok_def list_all_iff L f_def [symmetric]
          I_def D_def new_input_def less_Suc_eq)
    have a3: "a \<notin> string_of_nat ` {..<length [p]}"
      using False by auto
    have typed3: "typed_ok (inputList b3)"
      using typed by (simp add: b3 b1_def typed_ok_def L I_def D_def new_input_def)
    from addCasesFrom_leftover [OF sl3 a3 ids3 dist3 typed3]
    obtain b' where b': "addCasesFrom (Suc 0) ps b3 = Some b'"
        "map slot (inputList b') = case_slots 0 (p # ps)
           @ (if a \<in> string_of_nat ` {Suc 0..<Suc 0 + length ps} then [] else empty_case a)"
        "ids_ok b'" "typed_ok (inputList b')"
      by auto
    have "addCasesFrom 0 (p # ps) b = addCasesFrom (Suc 0) ps b3"
      unfolding addCasesFrom_step get ins b3_def by simp
    moreover have "a \<in> string_of_nat ` {..<length (p # ps)}
                     \<longleftrightarrow> a \<in> string_of_nat ` {Suc 0..<Suc 0 + length ps}"
    proof -
      have "{..<length (p # ps)} = insert 0 {Suc 0..<Suc 0 + length ps}" by auto
      then show ?thesis using False by auto
    qed
    ultimately show ?thesis using b' by simp
  qed
qed

text \<open>The attachments of a well-shaped slot list: those of its cases, then that of the Else slot.\<close>

lemma attached_split:
  "slots_ok xs \<Longrightarrow>
   attached xs = pair_targets (collect_pairs xs)
     @ opt_list (case find (\<lambda>i. name i = ''ELSE'') xs of
                   None \<Rightarrow> None
                 | Some e \<Rightarrow> targetConnection (connection e))"
proof (induction xs rule: slots_ok.induct)
  case 1
  then show ?case by (simp add: attached_def opt_list_def)
next
  case (2 e)
  then show ?case by (simp add: attached_def)
next
  case (3 x y rest)
  then have nx: "name x \<noteq> ''ELSE''" and ny: "name y \<noteq> ''ELSE''"
    using IF_not_ELSE [of "name x"] by auto
  have "attached (x # y # rest)
          = opt_list (targetConnection (connection x)) @ opt_list (targetConnection (connection y))
            @ attached rest"
    by (simp add: attached_def)
  then show ?case
    using 3 nx ny by (auto simp: Let_def opt_list_def)
qed

lemma empty_case_targets: "(nm, Some t) \<notin> set (empty_case a)"
  by (simp add: empty_case_def)

text \<open>The rebuild on a well-formed block, slot by slot.\<close>

lemma finalizeConnections_rebuild:
  assumes wf: "well_formed b"
  shows "\<exists>b'. finalizeConnections b = Some b'
     \<and> slots b' =
         (if collectTargetCaseConns b = [] then empty_case (drop 2 (name (hd (inputList b))))
          else case_slots 0 (collectTargetCaseConns b)
               @ (if drop 2 (name (hd (inputList b)))
                       \<in> string_of_nat ` {..<length (collectTargetCaseConns b)}
                  then [] else empty_case (drop 2 (name (hd (inputList b))))))
         @ else_slots (elseTarget b)
     \<and> elseifCount b' = max (int (length (collectTargetCaseConns b)) - 1) 0
     \<and> elseCount b' = (if elseTarget b = None then 0 else 1)
     \<and> ids_ok b' \<and> typed_ok (inputList b')"
proof -
  define xs where "xs = inputList b"
  define ps where "ps = collectTargetCaseConns b"
  define et where "et = elseTarget b"
  have ok: "slots_ok xs" and dn: "distinct (map name xs)" and ids: "ids_ok b"
    and dt: "distinct (map target_id (attached xs))" and len: "2 \<le> length xs"
    using wf by (simp_all add: well_formed_def xs_def names_def)
  from len obtain A B rest where xs: "xs = A # B # rest"
    by (cases xs; cases "tl xs") auto
  define a where "a = drop 2 (name A)"
  have tk: "take 2 (name A) = ''IF''" and nB: "name B = ''DO'' @ a"
    using ok xs by (simp_all add: a_def)
  have nA: "name A = ''IF'' @ a"
    unfolding a_def tk [symmetric] by simp
  have a_hd: "drop 2 (name (hd (inputList b))) = a"
    by (simp add: xs_def [symmetric] xs a_def)
  have ps_xs: "ps = collect_pairs xs" by (simp add: ps_def collectTargetCaseConns_def xs_def)
  have et_xs: "et = (case find (\<lambda>i. name i = ''ELSE'') xs of
                   None \<Rightarrow> None
                 | Some e \<Rightarrow> targetConnection (connection e))"
    by (simp add: et_def elseTarget_def getInput_def xs_def)
  have att: "attached xs = pair_targets ps @ opt_list et"
    using attached_split [OF ok] by (simp add: ps_xs et_xs)
  have "distinct (attached xs)" using dt by (simp add: distinct_map)
  then have dps: "distinct (pair_targets ps @ opt_list et)" by (simp add: att)
  define bd where "bd = b\<lparr>inputList := [A, B]\<rparr>"
  have del: "deleteDynamicInputs b = Some bd"
    using deleteDynamicInputs_keeps_two [of b] dn
    by (simp add: names_def xs_def [symmetric] xs bd_def)
  have idsd: "ids_ok bd"
    using ids by (auto simp: ids_ok_def bd_def xs_def [symmetric] xs)
  have tyd: "typed_ok (inputList bd)"
    using ok xs by (simp add: bd_def typed_ok_def)
  define lo where "lo = (if ps = [] then empty_case a
          else case_slots 0 ps
               @ (if a \<in> string_of_nat ` {..<length ps} then [] else empty_case a))"
  have loop: "\<exists>b2. addCaseInputs bd ps = Some b2 \<and> map slot (inputList b2) = lo \<and> ids_ok b2
                 \<and> typed_ok (inputList b2)"
  proof (cases ps)
    case Nil
    then have "targetConnection (connection A) = None \<and> targetConnection (connection B) = None"
      using ps_xs xs by (auto simp: Let_def split: if_splits)
    then have "map slot (inputList bd) = empty_case a"
      by (simp add: bd_def slot_def nA nB empty_case_def)
    then show ?thesis using Nil idsd tyd by (simp add: addCaseInputs_def lo_def)
  next
    case (Cons p ps')
    have tAB: "(targetConnection (connection A) = None \<or> targetConnection (connection A) = ifTarget p)
             \<and> (targetConnection (connection B) = None \<or> targetConnection (connection B) = doTarget p)"
      using ps_xs xs Cons by (auto simp: Let_def split: if_splits)
    have "distinct (pair_targets ps)" using dps by simp
    then have d: "distinct (pair_targets (p # ps'))" using Cons by simp
    have Ld: "inputList bd = [A, B]" by (simp add: bd_def)
    from addCasesFrom_first [OF Ld nA nB idsd d] tAB tyd
    show ?thesis using Cons by (simp add: addCaseInputs_def lo_def)
  qed
  then obtain b2 where b2: "addCaseInputs bd ps = Some b2" "map slot (inputList b2) = lo"
    "ids_ok b2" and ty2: "typed_ok (inputList b2)"
    by blast
  define b3 where "b3 = (case et of None \<Rightarrow> b2 | Some t \<Rightarrow> addElseInput b2 t)"
  have sl3ids: "map slot (inputList b3) = lo @ else_slots et \<and> ids_ok b3
                  \<and> typed_ok (inputList b3)"
  proof (cases et)
    case None
    then show ?thesis
      using b2 ty2 by (simp add: b3_def else_slots_def)
  next
    case (Some t)
    have tps: "t \<notin> set (pair_targets ps)" using dps Some by auto
    have free: "\<forall>i \<in> set (inputList b2). targetConnection (connection i) = None
                \<or> targetConnection (connection i) \<noteq> Some t"
    proof
      fix i assume i: "i \<in> set (inputList b2)"
      show "targetConnection (connection i) = None \<or> targetConnection (connection i) \<noteq> Some t"
      proof (rule ccontr)
        assume "\<not> ?thesis"
        then have "targetConnection (connection i) = Some t" by simp
        with i have "(name i, Some t) \<in> set (map slot (inputList b2))"
          by (force simp: slot_def)
        then have "(name i, Some t) \<in> set lo" by (simp add: b2)
        then show False
          using tps case_slots_targets [of "name i" t 0 ps] empty_case_targets [of "name i" t a]
          by (auto simp: lo_def split: if_splits)
      qed
    qed
    define E where "E = new_input ''ELSE'' NEXT_STATEMENT (fresh_id b2)"
    define be where "be = appendStatementInput b2 ''ELSE''"
    have Le: "inputList be = inputList b2 @ E # []"
      by (simp add: be_def E_def appendStatementInput_def appendInput_def)
    have idE: "conn_id (connection E) = fresh_id b2" by (simp add: E_def new_input_def)
    have others: "\<forall>i \<in> set (inputList b2) \<union> set []. conn_id (connection i) \<noteq> fresh_id b2"
      using b2(3) by (auto simp: ids_ok_def list_all_iff)
    have "connect_opt be (fresh_id b2) (Some t)
            = be\<lparr>inputList := inputList b2 @ set_target (Some t) E # map (unplug_opt (Some t)) []\<rparr>"
      by (rule connect_opt_inputs [OF Le idE others free]) (simp add: E_def new_input_def)
    then have b3e: "b3 = be\<lparr>inputList := inputList b2 @ [set_target (Some t) E]\<rparr>"
      using Some by (simp add: b3_def addElseInput_def connect_opt_def be_def)
    have "map slot (inputList b3) = lo @ else_slots et"
      using Some by (simp add: b3e b2 slot_def else_slots_def E_def new_input_def)
    moreover have "ids_ok b3"
      using b2(3)
      by (auto simp: b3e be_def ids_ok_def list_all_iff appendStatementInput_def appendInput_def
          E_def new_input_def less_Suc_eq)
    moreover have "typed_ok (inputList b3)"
      using ty2 by (simp add: b3e typed_ok_def E_def new_input_def)
    ultimately show ?thesis by simp
  qed
  then have sl3: "map slot (inputList b3) = lo @ else_slots et" and ids3: "ids_ok b3"
    and ty3: "typed_ok (inputList b3)"
    by simp_all
  have fin: "finalizeConnections b
               = Some (b3\<lparr>elseifCount := max (int (length ps) - 1) 0,
                          elseCount := (if et \<noteq> None then 1 else 0)\<rparr>)"
    unfolding finalizeConnections_def Let_def del ps_def [symmetric] et_def [symmetric]
    by (simp add: b2(1) b3_def)
  show ?thesis
    unfolding fin a_hd ps_def [symmetric] et_def [symmetric]
    using sl3 ids3 ty3 by (auto simp: slots_def lo_def ids_ok_def)
qed

subsection \<open>The cases before and after the rebuild\<close>

lemma collect_pairs_filter: "collect_pairs xs = filter populated (slot_pairs (map slot xs))"
  by (induction xs rule: collect_pairs.induct) (auto simp: populated_def slot_def Let_def)

lemma collectTargetCaseConns_populated:
  "collectTargetCaseConns b = filter populated (cases_of b)"
  by (simp add: collectTargetCaseConns_def cases_of_def slots_def collect_pairs_filter)

lemma slot_pairs_case_slots: "slot_pairs (case_slots k ps @ rest) = ps @ slot_pairs rest"
  by (induction ps arbitrary: k) auto

lemma slot_pairs_empty_case: "slot_pairs (empty_case a @ rest) = empty_pair # slot_pairs rest"
  by (simp add: empty_case_def empty_pair_def)

lemma slot_pairs_else: "slot_pairs (else_slots t) = []"
  by (simp add: else_slots_def split: option.split)

lemma slot_pairs_length: "length (slot_pairs xs) = length xs div 2"
  by (induction xs rule: slot_pairs.induct) auto

lemma attached_slots: "attached xs = concat (map (\<lambda>s. opt_list (snd s)) (map slot xs))"
  by (simp add: attached_def slot_def comp_def)

lemma case_slots_attached:
  "concat (map (\<lambda>s. opt_list (snd s)) (case_slots k ps)) = pair_targets ps"
  by (induction ps arbitrary: k) auto

lemma case_slots_fst:
  "map fst (case_slots k ps)
     = concat (map (\<lambda>j. [''IF'' @ string_of_nat j, ''DO'' @ string_of_nat j])
                [k..<k + length ps])"
proof (induction ps arbitrary: k)
  case Nil
  then show ?case by simp
next
  case (Cons p ps)
  have "[k..<k + length (p # ps)] = k # [Suc k..<Suc k + length ps]"
    by (subst upt_rec) simp
  then show ?case using Cons [of "Suc k"] by simp
qed

lemma string_of_nat_0: "string_of_nat 0 = ''0''"
  by (simp add: string_of_nat.simps digit_char_def)

lemma empty_case_0: "empty_case ''0'' = case_slots 0 [empty_pair]"
  by (simp add: empty_case_def empty_pair_def string_of_nat_0)

lemma not_populated_empty: "\<not> populated empty_pair"
  by (simp add: populated_def empty_pair_def)

lemma names_slots: "names b = map fst (slots b)"
  by (simp add: names_def slots_def slot_def comp_def)

text \<open>The rebuild of a block whose first case is the default one.\<close>

lemma finalizeConnections_default:
  assumes wf: "well_formed b" and df: "default_first b"
  shows "\<exists>b'. finalizeConnections b = Some b'
     \<and> slots b' =
         case_slots 0 (if collectTargetCaseConns b = [] then [empty_pair]
                       else collectTargetCaseConns b)
         @ else_slots (elseTarget b)
     \<and> elseifCount b' = max (int (length (collectTargetCaseConns b)) - 1) 0
     \<and> elseCount b' = (if elseTarget b = None then 0 else 1)
     \<and> ids_ok b'"
proof -
  have "2 \<le> length (inputList b)" using wf by (simp add: well_formed_def)
  then obtain A B rest where xs: "inputList b = A # B # rest"
    by (cases "inputList b"; cases "tl (inputList b)") auto
  have "name A = ''IF0''" using df by (simp add: default_first_def names_def xs)
  then have a: "drop 2 (name (hd (inputList b))) = ''0''" by (simp add: xs)
  have in0: "collectTargetCaseConns b \<noteq> [] \<Longrightarrow>
             ''0'' \<in> string_of_nat ` {..<length (collectTargetCaseConns b)}"
    using string_of_nat_0 by (metis image_eqI length_greater_0_conv lessThan_iff)
  from finalizeConnections_rebuild [OF wf] show ?thesis
    unfolding a using in0 by (auto simp: empty_case_0)
qed

lemma else_not_case_name: "''ELSE'' \<notin> fst ` set (case_slots k ps)"
  unfolding case_slots_names by auto

lemma hasElse_rebuilt:
  assumes "slots b' = cs @ else_slots et" and "''ELSE'' \<notin> fst ` set cs"
  shows "hasElse b' \<longleftrightarrow> et \<noteq> None"
  using assms by (auto simp: hasElse_def names_slots else_slots_def split: option.splits)

lemma caseCount_names: "caseCount b = length (names b) div 2"
  by (simp add: caseCount_def cases_of_def slot_pairs_length names_slots)

lemma parseInt_digits: "parseInt ''0'' = Some 0" "parseInt ''1'' = Some 1"
  by code_simp+
subsection \<open>Running the rebuild on its own result\<close>

text \<open>
  What the rebuild returns for a block whose first case is the default one is again such a
  block, well formed, with the same populated cases and the same attachment on the Else slot.
  A second rebuild then finds nothing to change: the slot list and both counts stay as they are.
\<close>

lemma slots_ok_rebuilt:
  "map name xs = map fst (case_slots k qs @ else_slots et) \<Longrightarrow> typed_ok xs \<Longrightarrow> slots_ok xs"
proof (induction qs arbitrary: xs k)
  case Nil
  then show ?case
    by (cases et; cases xs) (auto simp: else_slots_def typed_ok_def)
next
  case (Cons q qs)
  from Cons.prems(1) obtain x y rest where xs: "xs = x # y # rest"
    by (cases xs; cases "tl xs") auto
  have nx: "name x = ''IF'' @ string_of_nat k" and ny: "name y = ''DO'' @ string_of_nat k"
    and nr: "map name rest = map fst (case_slots (Suc k) qs @ else_slots et)"
    using Cons.prems(1) by (simp_all add: xs)
  have "typed_ok rest" using Cons.prems(2) by (simp add: xs typed_ok_def)
  from Cons.IH [OF nr this] have "slots_ok rest" .
  then show ?case
    using Cons.prems(2) nx ny by (simp add: xs typed_ok_def)
qed

lemma case_slots_distinct: "distinct (map fst (case_slots k ps))"
proof (induction ps arbitrary: k)
  case Nil
  then show ?case by simp
next
  case (Cons p ps)
  have "''IF'' @ string_of_nat k \<notin> fst ` set (case_slots (Suc k) ps)"
    and "''DO'' @ string_of_nat k \<notin> fst ` set (case_slots (Suc k) ps)"
    unfolding case_slots_names by auto
  then show ?case using Cons [of "Suc k"] by simp
qed

lemma elseTarget_slots:
  "elseTarget b = (case map_of (slots b) ''ELSE'' of None \<Rightarrow> None | Some t \<Rightarrow> t)"
proof -
  have "(case find (\<lambda>i. name i = ''ELSE'') xs of None \<Rightarrow> None
         | Some e \<Rightarrow> targetConnection (connection e))
        = (case map_of (map slot xs) ''ELSE'' of None \<Rightarrow> None | Some t \<Rightarrow> t)" for xs
    by (induction xs) (auto simp: slot_def)
  then show ?thesis by (simp add: elseTarget_def getInput_def slots_def)
qed

lemma elseTarget_rebuilt:
  assumes "slots b = case_slots k qs @ else_slots et"
  shows "elseTarget b = et"
proof -
  have "map_of (case_slots k qs) ''ELSE'' = None"
    using else_not_case_name [of k qs] by (simp add: map_of_eq_None_iff)
  then show ?thesis
    unfolding elseTarget_slots assms
    by (simp add: map_of_append map_add_def else_slots_def split: option.split)
qed

lemma finalizeConnections_well_formed:
  assumes wf: "well_formed b" and df: "default_first b"
  shows "\<exists>b'. finalizeConnections b = Some b' \<and> well_formed b' \<and> default_first b'
           \<and> collectTargetCaseConns b' = collectTargetCaseConns b
           \<and> elseTarget b' = elseTarget b"
proof -
  define ps where "ps = collectTargetCaseConns b"
  define et where "et = elseTarget b"
  define qs where "qs = (if ps = [] then [empty_pair] else ps)"
  have len: "2 \<le> length (inputList b)" and ok: "slots_ok (inputList b)"
    and dt: "distinct (map target_id (attached (inputList b)))"
    using wf by (simp_all add: well_formed_def)
  from len obtain A B rest where xs: "inputList b = A # B # rest"
    by (cases "inputList b"; cases "tl (inputList b)") auto
  have "name A = ''IF0''" using df by (simp add: default_first_def names_def xs)
  then have a: "drop 2 (name (hd (inputList b))) = ''0''" by (simp add: xs)
  have in0: "ps \<noteq> [] \<Longrightarrow> ''0'' \<in> string_of_nat ` {..<length ps}"
    using string_of_nat_0 by (metis image_eqI length_greater_0_conv lessThan_iff)
  from finalizeConnections_rebuild [OF wf]
  obtain b' where fin: "finalizeConnections b = Some b'"
    and sl: "slots b' = case_slots 0 qs @ else_slots et"
    and ids: "ids_ok b'" and ty: "typed_ok (inputList b')"
    unfolding a ps_def [symmetric] et_def [symmetric] qs_def
    using in0 by (auto simp: empty_case_0)
  have qs_ne: "qs \<noteq> []" by (simp add: qs_def)
  then obtain q qs' where qs: "qs = q # qs'" by (cases qs) auto
  have nm: "names b' = map fst (case_slots 0 qs @ else_slots et)"
    by (simp add: names_slots sl)
  have l2: "2 \<le> length (inputList b')"
    using arg_cong [OF sl, of length] by (simp add: slots_def qs)
  have sok: "slots_ok (inputList b')"
    using slots_ok_rebuilt [of "inputList b'" 0 qs et] nm ty by (simp add: names_def)
  have dn: "distinct (names b')"
    unfolding nm using case_slots_distinct [of 0 qs] else_not_case_name [of 0 qs]
    by (auto simp: else_slots_def split: option.split)
  have fps: "filter populated qs = ps"
    using collectTargetCaseConns_populated [of b]
    by (auto simp: qs_def ps_def not_populated_empty)
  have cps: "collectTargetCaseConns b' = ps"
    unfolding collectTargetCaseConns_populated cases_of_def sl slot_pairs_case_slots slot_pairs_else
    using fps by simp
  have ets: "elseTarget b' = et" using elseTarget_rebuilt [OF sl] .
  have att_b: "attached (inputList b) = pair_targets ps @ opt_list et"
    using attached_split [OF ok]
    by (simp add: ps_def collectTargetCaseConns_def et_def elseTarget_def getInput_def)
  have att_b': "attached (inputList b') = pair_targets ps @ opt_list et"
    using attached_split [OF sok] cps ets
    by (simp add: collectTargetCaseConns_def elseTarget_def getInput_def)
  have dt': "distinct (map target_id (attached (inputList b')))"
    using dt by (simp add: att_b att_b')
  have df': "default_first b'"
    by (simp add: default_first_def nm qs string_of_nat_0)
  show ?thesis
    using fin l2 sok dn ids dt' df' cps ets
    by (simp add: well_formed_def ps_def et_def)
qed

lemma finalizeConnections_idempotent:
  assumes wf: "well_formed b" and df: "default_first b"
  shows "\<exists>b1 b2. finalizeConnections b = Some b1 \<and> finalizeConnections b1 = Some b2
           \<and> slots b2 = slots b1 \<and> elseifCount b2 = elseifCount b1
           \<and> elseCount b2 = elseCount b1"
proof -
  from finalizeConnections_well_formed [OF wf df]
  obtain b1 where f1: "finalizeConnections b = Some b1" and wf1: "well_formed b1"
    and df1: "default_first b1"
    and c1: "collectTargetCaseConns b1 = collectTargetCaseConns b"
    and e1: "elseTarget b1 = elseTarget b"
    by blast
  from finalizeConnections_default [OF wf df] f1
  have s1: "slots b1 = case_slots 0 (if collectTargetCaseConns b = [] then [empty_pair]
                       else collectTargetCaseConns b) @ else_slots (elseTarget b)"
    and n1: "elseifCount b1 = max (int (length (collectTargetCaseConns b)) - 1) 0"
    and m1: "elseCount b1 = (if elseTarget b = None then 0 else 1)"
    by auto
  from finalizeConnections_default [OF wf1 df1]
  obtain b2 where f2: "finalizeConnections b1 = Some b2"
    and s2: "slots b2 = case_slots 0 (if collectTargetCaseConns b1 = [] then [empty_pair]
                       else collectTargetCaseConns b1) @ else_slots (elseTarget b1)"
    and n2: "elseifCount b2 = max (int (length (collectTargetCaseConns b1)) - 1) 0"
    and m2: "elseCount b2 = (if elseTarget b1 = None then 0 else 1)"
    by auto
  show ?thesis
    using f1 f2 by (simp add: s1 s2 n1 n2 m1 m2 c1 e1)
qed


section \<open>The claims\<close>

subsection \<open>C1: the case behind the hovered one\<close>

text \<open>
  C1 as stated fails both ways. With a real block on \<open>IF0\<close> and an insertion marker on
  \<open>IF1\<close>, hovering over \<open>IF0\<close> inserts nothing; with a real block on \<open>IF1\<close> instead, it
  inserts a new case between the two.
\<close>

theorem onPendingConnection_marker_counterexample:
  "(let b = attach (attach two_cases ''IF0'' (real_target 7)) ''IF1'' (marker_target 8)
    in targetConnection (connection_of b ''IF0'') = Some (real_target 7)
     \<and> slots b = [(''IF0'', Some (real_target 7)), (''DO0'', None),
                   (''IF1'', Some (marker_target 8)), (''DO1'', None)]
     \<and> map_option slots (onPendingConnection b (connection_of b ''IF0'') ''uid'')
         = Some (slots b))
   \<and> (let b = attach (attach two_cases ''IF0'' (real_target 7)) ''IF1'' (real_target 8)
      in targetConnection (connection_of b ''IF0'') = Some (real_target 7)
       \<and> slots b = [(''IF0'', Some (real_target 7)), (''DO0'', None),
                     (''IF1'', Some (real_target 8)), (''DO1'', None)]
       \<and> map_option slots (onPendingConnection b (connection_of b ''IF0'') ''uid'')
           = Some [(''IF0'', Some (real_target 7)), (''DO0'', None),
                   (''IFuid'', None), (''DOuid'', None),
                   (''IF1'', Some (real_target 8)), (''DO1'', None)])"
  by code_simp

text \<open>
  C1 (amended). On a well-formed block, let the hovered connection be that of the Condition
  slot at the even position \<open>k\<close>, with something attached, and let the slot two positions
  ahead exist and not be the Else slot. If that following Condition slot holds a real block,
  \<^verbatim>\<open>onPendingConnection\<close> inserts a new case pair in front of it, named by the new
  identifier; if it holds an insertion marker, or nothing, the block is left unchanged.
\<close>

theorem onPendingConnection_next_case:
  assumes wf: "well_formed b"
    and k: "even k" "k + 2 < length (inputList b)"
    and c: "c = connection (inputList b ! k)"
    and att: "targetConnection c \<noteq> None"
    and notelse: "name (inputList b ! (k + 2)) \<noteq> ''ELSE''"
    and fresh: "''IF'' @ uid \<notin> set (names b)" "''DO'' @ uid \<notin> set (names b)"
  shows "onPendingConnection b c uid =
      (if (\<exists>t. targetConnection (connection (inputList b ! (k + 2))) = Some t
               \<and> \<not> isInsertionMarker t)
       then Some (b\<lparr>inputList := take (k + 2) (inputList b)
                      @ [new_input (''IF'' @ uid) INPUT_VALUE (fresh_id b),
                         new_input (''DO'' @ uid) NEXT_STATEMENT (Suc (fresh_id b))]
                      @ drop (k + 2) (inputList b),
                    fresh_id := Suc (Suc (fresh_id b))\<rparr>)
       else Some b)"
proof -
  have klt: "k < length (inputList b)" and k1: "Suc k < length (inputList b)"
    and k2: "k + 2 \<le> length (inputList b)"
    using k by simp_all
  have shape: "take 2 (name (inputList b ! k)) = ''IF''"
    "conn_type (connection (inputList b ! k)) = INPUT_VALUE"
    using slots_ok_nth [OF well_formed_facts(1) [OF wf] klt] k(1) k1 by simp_all
  have settled: "conn_type c = NEXT_STATEMENT \<longrightarrow> ''ELSE'' \<in> set (names b)"
    using shape(2) by (simp add: c)
  have find: "findInputIndexForConnection b c = Some k"
    using find_conn_index_nth [OF well_formed_facts(4) [OF wf] klt, of 0]
    by (simp add: findInputIndexForConnection_def c)
  have inc: "str_includes (name (inputList b ! k)) ''IF''"
    by (rule starts_IF_includes [OF shape(1)])
  have insert: "insertElseIf b (k + 2) uid =
      Some (b\<lparr>inputList := take (k + 2) (inputList b)
                      @ [new_input (''IF'' @ uid) INPUT_VALUE (fresh_id b),
                         new_input (''DO'' @ uid) NEXT_STATEMENT (Suc (fresh_id b))]
                      @ drop (k + 2) (inputList b),
                    fresh_id := Suc (Suc (fresh_id b))\<rparr>, fresh_id b, Suc (fresh_id b))"
    apply (rule insertElseIf_at [OF k2])
    using well_formed_facts(2,3) [OF wf] fresh by (simp_all add: names_def)
  show ?thesis
    using att inc k(2) notelse insert
    unfolding onPendingConnection_settled [OF settled] find
    by (auto split: option.splits)
qed

theorem onPendingConnection_next_case_witness:
  "(let b = attach (attach two_cases ''IF0'' (real_target 7)) ''IF1'' (real_target 8);
        c = connection (inputList b ! 0)
    in well_formed b \<and> even (0::nat) \<and> 0 + 2 < length (inputList b)
       \<and> targetConnection c \<noteq> None \<and> name (inputList b ! (0 + 2)) \<noteq> ''ELSE''
       \<and> ''IF'' @ ''uid'' \<notin> set (names b) \<and> ''DO'' @ ''uid'' \<notin> set (names b)
       \<and> targetConnection (connection (inputList b ! (0 + 2))) = Some (real_target 8)
       \<and> map_option names (onPendingConnection b c ''uid'')
           = Some [''IF0'', ''DO0'', ''IFuid'', ''DOuid'', ''IF1'', ''DO1''])
   \<and> (let b = attach (attach two_cases ''IF0'' (real_target 7)) ''IF1'' (marker_target 8);
          c = connection (inputList b ! 0)
      in well_formed b \<and> 0 + 2 < length (inputList b)
       \<and> targetConnection c \<noteq> None \<and> name (inputList b ! (0 + 2)) \<noteq> ''ELSE''
       \<and> ''IF'' @ ''uid'' \<notin> set (names b) \<and> ''DO'' @ ''uid'' \<notin> set (names b)
       \<and> targetConnection (connection (inputList b ! (0 + 2))) = Some (marker_target 8)
       \<and> onPendingConnection b c ''uid'' = Some b)"
proof -
  define b where "b = attach (attach two_cases ''IF0'' (real_target 7)) ''IF1'' (real_target 8)"
  define g where "g = attach (attach two_cases ''IF0'' (real_target 7)) ''IF1'' (marker_target 8)"
  have wf: "well_formed b" and wg: "well_formed g" unfolding b_def g_def by code_simp+
  have ev: "even (0::nat)" by simp
  have lb: "0 + 2 < length (inputList b)" and lg: "0 + 2 < length (inputList g)"
    unfolding b_def g_def by code_simp+
  have ab: "targetConnection (connection (inputList b ! 0)) \<noteq> None"
    and ag: "targetConnection (connection (inputList g ! 0)) \<noteq> None"
    unfolding b_def g_def by code_simp+
  have nb: "name (inputList b ! (0 + 2)) \<noteq> ''ELSE''"
    and ng: "name (inputList g ! (0 + 2)) \<noteq> ''ELSE''"
    unfolding b_def g_def by code_simp+
  have fb: "''IF'' @ ''uid'' \<notin> set (names b)" "''DO'' @ ''uid'' \<notin> set (names b)"
    and fg: "''IF'' @ ''uid'' \<notin> set (names g)" "''DO'' @ ''uid'' \<notin> set (names g)"
    unfolding b_def g_def by code_simp+
  have tb: "targetConnection (connection (inputList b ! (0 + 2))) = Some (real_target 8)"
    and tg: "targetConnection (connection (inputList g ! (0 + 2))) = Some (marker_target 8)"
    unfolding b_def g_def by code_simp+
  have nmb: "map name (take (Suc (Suc 0)) (inputList b)) = [''IF0'', ''DO0'']"
    "map name (drop (Suc (Suc 0)) (inputList b)) = [''IF1'', ''DO1'']"
    unfolding b_def by code_simp+
  have rb: "map_option names (onPendingConnection b (connection (inputList b ! 0)) ''uid'')
              = Some [''IF0'', ''DO0'', ''IFuid'', ''DOuid'', ''IF1'', ''DO1'']"
    using onPendingConnection_next_case [OF wf ev lb refl ab nb fb] tb nmb
    by (simp add: real_target_def names_def new_input_def)
  have rg: "onPendingConnection g (connection (inputList g ! 0)) ''uid'' = Some g"
    using onPendingConnection_next_case [OF wg ev lg refl ag ng fg] tg
    by (simp add: marker_target_def)
  show ?thesis
    using wf wg lb lg ab ag nb ng fb fg tb tg rb rg
    by (simp add: b_def [symmetric] g_def [symmetric] Let_def)
qed

subsection \<open>C2: the attachments across the rebuild\<close>

text \<open>
  On every well-formed block \<^verbatim>\<open>finalizeConnections\<close> returns, and the cases that had an
  attachment before the rebuild, taken in their order, are afterwards the cases
  \<open>0, 1, ...\<close>: case \<open>j\<close> of them has its Condition reference on \<open>IFj\<close> and its Branch
  reference on \<open>DOj\<close>, so every reference stays on its side and with its partner. The
  populated cases after the rebuild are the populated cases before it, and no reference of
  the block, that of the Else slot included, is dropped.
\<close>

lemma finalizeConnections_keeps_attachments:
  assumes wf: "well_formed b"
  shows "\<exists>b'. finalizeConnections b = Some b'
     \<and> take (2 * length (filter populated (cases_of b))) (slots b')
         = case_slots 0 (filter populated (cases_of b))
     \<and> filter populated (cases_of b') = filter populated (cases_of b)
     \<and> attached (inputList b') = attached (inputList b)"
proof -
  define ps where "ps = filter populated (cases_of b)"
  define a where "a = drop 2 (name (hd (inputList b)))"
  define et where "et = elseTarget b"
  have cps: "collectTargetCaseConns b = ps"
    by (simp add: ps_def collectTargetCaseConns_populated)
  have fps: "filter populated ps = ps" by (simp add: ps_def)
  from finalizeConnections_rebuild [OF wf]
  obtain b' where fin: "finalizeConnections b = Some b'"
    and sl: "slots b' = (if ps = [] then empty_case a
          else case_slots 0 ps
               @ (if a \<in> string_of_nat ` {..<length ps} then [] else empty_case a))
         @ else_slots et"
    unfolding cps a_def [symmetric] et_def [symmetric] by blast
  have tk: "take (2 * length ps) (slots b') = case_slots 0 ps"
    by (simp add: sl case_slots_length)
  have pairs: "filter populated (cases_of b') = ps"
    using fps
    by (simp add: cases_of_def sl slot_pairs_case_slots slot_pairs_empty_case slot_pairs_else
        not_populated_empty)
  have ok: "slots_ok (inputList b)" using wf by (simp add: well_formed_def)
  have att: "attached (inputList b) = pair_targets ps @ opt_list et"
    using attached_split [OF ok]
    by (simp add: cps [symmetric] collectTargetCaseConns_def et_def elseTarget_def getInput_def)
  have "attached (inputList b') = concat (map (\<lambda>s. opt_list (snd s)) (slots b'))"
    by (simp add: attached_slots slots_def)
  also have "\<dots> = pair_targets ps @ opt_list et"
  proof -
    have e1: "concat (map (\<lambda>s. opt_list (snd s)) (empty_case a)) = []"
      by (simp add: empty_case_def opt_list_def)
    have e2: "concat (map (\<lambda>s. opt_list (snd s)) (else_slots et)) = opt_list et"
      by (simp add: else_slots_def opt_list_def split: option.split)
    have e3: "\<forall>s \<in> set (empty_case a). opt_list (snd s) = []"
      by (simp add: empty_case_def opt_list_def)
    show ?thesis by (simp add: sl case_slots_attached e1 e2 e3)
  qed
  finally have "attached (inputList b') = attached (inputList b)" by (simp add: att)
  with fin tk pairs show ?thesis by (simp add: ps_def)
qed

lemma finalizeConnections_keeps_attachments_example:
  "well_formed three_cases
   \<and> filter populated (cases_of three_cases)
       = [\<lparr>ifTarget = Some (real_target 7), doTarget = None\<rparr>,
          \<lparr>ifTarget = None, doTarget = Some (real_target 8)\<rparr>]
   \<and> (\<exists>b'. finalizeConnections three_cases = Some b'
         \<and> take 4 (slots b') = [(''IF0'', Some (real_target 7)), (''DO0'', None),
                                 (''IF1'', None), (''DO1'', Some (real_target 8))]
         \<and> attached (inputList b') = [real_target 7, real_target 8])"
proof -
  have wf: "well_formed three_cases" by code_simp
  have ps: "filter populated (cases_of three_cases)
       = [\<lparr>ifTarget = Some (real_target 7), doTarget = None\<rparr>,
          \<lparr>ifTarget = None, doTarget = Some (real_target 8)\<rparr>]"
    by code_simp
  have att: "attached (inputList three_cases) = [real_target 7, real_target 8]" by code_simp
  have cs: "case_slots 0 [\<lparr>ifTarget = Some (real_target 7), doTarget = None\<rparr>,
          \<lparr>ifTarget = None, doTarget = Some (real_target 8)\<rparr>]
       = [(''IF0'', Some (real_target 7)), (''DO0'', None),
          (''IF1'', None), (''DO1'', Some (real_target 8))]"
    by code_simp
  from finalizeConnections_keeps_attachments [OF wf]
  have "\<exists>b'. finalizeConnections three_cases = Some b'
         \<and> take 4 (slots b') = [(''IF0'', Some (real_target 7)), (''DO0'', None),
                                 (''IF1'', None), (''DO1'', Some (real_target 8))]
         \<and> attached (inputList b') = [real_target 7, real_target 8]"
    unfolding ps att cs by auto
  then show ?thesis using wf ps by simp
qed

text \<open>
  A hover does not keep a block well formed. The heuristic takes an input for a Condition
  slot when its name contains \<^verbatim>\<open>IF\<close>, which the name of a Branch slot does as soon as the
  discriminator contains it; the new case then lands behind the Else slot.
\<close>

lemma hover_leaves_malformed: "well_formed legacy_xif \<and> \<not> well_formed dropped_xif"
  by code_simp

text \<open>
  The same happens on a block that never saw the legacy decoder, when a generated identifier
  contains \<^verbatim>\<open>IF\<close>: a hover over the Branch slot \<open>DOaIFb\<close> that holds the insertion marker puts a
  further case behind the Else slot.
\<close>

lemma hover_generated_name:
  "names marker_on_new_case = [''IF0'', ''DO0'', ''IFaIFb'', ''DOaIFb'']
   \<and> map_option names
         (onPendingConnection marker_on_new_case (connection_of marker_on_new_case ''DOaIFb'') ''u2'')
       = Some [''IF0'', ''DO0'', ''IFaIFb'', ''DOaIFb'', ''ELSE'', ''IFu2'', ''DOu2'']"
  by code_simp

text \<open>
  C2 (the code departs from it). Every reference attached to a Condition or Branch slot
  before \<^verbatim>\<open>finalizeConnections\<close> should be attached afterwards. Take the block decoded from
  \<^verbatim>\<open>inputs="xIF"\<close> with a real block on \<open>DOxIF\<close>. A hover over \<open>DOxIF\<close> appends the Else slot
  and then, the name \<open>DOxIF\<close> containing \<^verbatim>\<open>IF\<close>, a new case \<open>IFu, DOu\<close> behind it. With a
  block dropped on \<open>DOu\<close> the slot list is \<open>IFxIF, DOxIF, ELSE, IFu, DOu\<close>;
  \<^verbatim>\<open>collectTargetCaseConns\<close>, which pairs the inputs by position, pairs \<open>ELSE\<close> with \<open>IFu\<close>
  and never reads \<open>DOu\<close>. The rebuild deletes \<open>DOu\<close>, and the block that was dropped there
  is attached nowhere afterwards.
\<close>

theorem finalizeConnections_drops_attachment:
  "slots legacy_xif = [(''IFxIF'', None), (''DOxIF'', Some (real_target 7))]
   \<and> map_option slots (onPendingConnection legacy_xif (connection_of legacy_xif ''DOxIF'') ''u'')
       = Some [(''IFxIF'', None), (''DOxIF'', Some (real_target 7)), (''ELSE'', None),
               (''IFu'', None), (''DOu'', None)]
   \<and> slots dropped_xif
       = [(''IFxIF'', None), (''DOxIF'', Some (real_target 7)), (''ELSE'', None),
          (''IFu'', None), (''DOu'', Some (real_target 9))]
   \<and> collectTargetCaseConns dropped_xif
       = [\<lparr>ifTarget = None, doTarget = Some (real_target 7)\<rparr>]
   \<and> map_option slots (finalizeConnections dropped_xif)
       = Some [(''IF0'', None), (''DO0'', Some (real_target 7)),
               (''IFxIF'', None), (''DOxIF'', None)]"
  by code_simp


subsection \<open>C3: the slot list after the rebuild\<close>

text \<open>
  C3 (the code departs from it). After \<^verbatim>\<open>finalizeConnections\<close> the slot list should consist
  of the cases \<open>0..caseCount-1\<close> and at most one Else slot, whatever the names were before,
  states of the legacy decoder whose first discriminator is not 0 included. On the block
  decoded from \<^verbatim>\<open>inputs="3"\<close> with a real block on \<open>IF3\<close> the rebuild keeps the first two
  inputs, which are not the default ones, inserts \<open>IF0\<close> and \<open>DO0\<close> in front of them and
  moves the attachment there: \<open>IF3\<close> and \<open>DO3\<close> are left over, and the block has two cases
  while \<open>elseifCount\<close> is 0.
\<close>

theorem finalize_legacy_leftover:
  "slots (attach legacy_three ''IF3'' (real_target 7))
     = [(''IF3'', Some (real_target 7)), (''DO3'', None)]
   \<and> map_option slots (finalizeConnections (attach legacy_three ''IF3'' (real_target 7)))
       = Some [(''IF0'', Some (real_target 7)), (''DO0'', None), (''IF3'', None), (''DO3'', None)]
   \<and> map_option elseifCount (finalizeConnections (attach legacy_three ''IF3'' (real_target 7)))
       = Some 0"
  by code_simp

subsection \<open>C4: pruning the empty cases\<close>

text \<open>
  On a well-formed block whose first case is the default case 0, the cases after
  \<^verbatim>\<open>finalizeConnections\<close> are exactly the cases that had an attachment on at least one side,
  each as it was, so that a side that was empty is still empty; every case with both sides
  empty is gone. When no case had an attachment, the one case left is the empty case 0. In
  both situations the slot list starts with \<open>IF0\<close> and \<open>DO0\<close>.
\<close>

lemma finalizeConnections_prunes_empty_cases:
  assumes wf: "well_formed b" and df: "default_first b"
  shows "\<exists>b'. finalizeConnections b = Some b'
     \<and> cases_of b' = (if filter populated (cases_of b) = [] then [empty_pair]
                      else filter populated (cases_of b))
     \<and> take 2 (names b') = [''IF0'', ''DO0'']"
proof -
  define ps where "ps = filter populated (cases_of b)"
  have cps: "collectTargetCaseConns b = ps"
    by (simp add: ps_def collectTargetCaseConns_populated)
  from finalizeConnections_default [OF wf df]
  obtain b' where fin: "finalizeConnections b = Some b'"
    and sl: "slots b' = case_slots 0 (if ps = [] then [empty_pair] else ps)
                        @ else_slots (elseTarget b)"
    unfolding cps by blast
  have "cases_of b' = (if ps = [] then [empty_pair] else ps)"
    by (simp add: cases_of_def sl slot_pairs_case_slots slot_pairs_else)
  moreover have "take 2 (names b') = [''IF0'', ''DO0'']"
    by (cases ps) (simp_all add: names_slots sl string_of_nat_0)
  ultimately show ?thesis using fin by (simp add: ps_def)
qed

lemma finalizeConnections_prunes_empty_cases_example:
  "well_formed three_cases \<and> default_first three_cases
   \<and> cases_of three_cases
       = [\<lparr>ifTarget = Some (real_target 7), doTarget = None\<rparr>, empty_pair,
          \<lparr>ifTarget = None, doTarget = Some (real_target 8)\<rparr>]
   \<and> (\<exists>b'. finalizeConnections three_cases = Some b'
         \<and> cases_of b' = [\<lparr>ifTarget = Some (real_target 7), doTarget = None\<rparr>,
                          \<lparr>ifTarget = None, doTarget = Some (real_target 8)\<rparr>])
   \<and> well_formed init \<and> default_first init \<and> cases_of init = [empty_pair]
   \<and> (\<exists>b'. finalizeConnections init = Some b' \<and> cases_of b' = [empty_pair]
         \<and> take 2 (names b') = [''IF0'', ''DO0''])"
proof -
  have wf: "well_formed three_cases" and df: "default_first three_cases"
    and wi: "well_formed init" and di: "default_first init"
    by code_simp+
  have cs: "cases_of three_cases
       = [\<lparr>ifTarget = Some (real_target 7), doTarget = None\<rparr>, empty_pair,
          \<lparr>ifTarget = None, doTarget = Some (real_target 8)\<rparr>]"
    and ci: "cases_of init = [empty_pair]"
    by code_simp+
  have ps: "filter populated (cases_of three_cases)
       = [\<lparr>ifTarget = Some (real_target 7), doTarget = None\<rparr>,
          \<lparr>ifTarget = None, doTarget = Some (real_target 8)\<rparr>]"
    and pi: "filter populated (cases_of init) = []"
    by code_simp+
  have r1: "\<exists>b'. finalizeConnections three_cases = Some b'
         \<and> cases_of b' = [\<lparr>ifTarget = Some (real_target 7), doTarget = None\<rparr>,
                          \<lparr>ifTarget = None, doTarget = Some (real_target 8)\<rparr>]"
    using finalizeConnections_prunes_empty_cases [OF wf df] unfolding ps by auto
  have r2: "\<exists>b'. finalizeConnections init = Some b' \<and> cases_of b' = [empty_pair]
         \<and> take 2 (names b') = [''IF0'', ''DO0'']"
    using finalizeConnections_prunes_empty_cases [OF wi di] unfolding pi by auto
  show ?thesis using wf df wi di cs ci r1 r2 by simp
qed

text \<open>The legacy decoder builds well-formed blocks whose first case is not the default one.\<close>

lemma legacy_three_four_well_formed:
  "well_formed legacy_three_four \<and> \<not> default_first legacy_three_four"
  by code_simp

text \<open>
  C4 (the code departs from it). \<^verbatim>\<open>finalizeConnections\<close> should remove every case whose
  Condition and Branch slot are both empty. On the block decoded from \<^verbatim>\<open>inputs="3,4"\<close> with a
  real block on \<open>IF4\<close>, the case 3 is empty and the case 4 is populated.
  \<^verbatim>\<open>deleteDynamicInputs\<close> keeps the first two inputs, here \<open>IF3\<close> and \<open>DO3\<close>, and
  \<^verbatim>\<open>addCaseInputs\<close> inserts \<open>IF0\<close> and \<open>DO0\<close> in front of them for the populated case: the
  empty case 3 is still there after the rebuild, behind the case 0.
\<close>

theorem finalizeConnections_legacy_empty_case:
  "slots legacy_three_four
     = [(''IF3'', None), (''DO3'', None), (''IF4'', Some (real_target 7)), (''DO4'', None)]
   \<and> map_option slots (finalizeConnections legacy_three_four)
       = Some [(''IF0'', Some (real_target 7)), (''DO0'', None), (''IF3'', None), (''DO3'', None)]
   \<and> map_option cases_of (finalizeConnections legacy_three_four)
       = Some [\<lparr>ifTarget = Some (real_target 7), doTarget = None\<rparr>, empty_pair]"
  by code_simp


subsection \<open>C5: hovering twice\<close>

text \<open>
  C5. On a well-formed block, for a connection of the block (the connection of one of its
  inputs, or its next or previous connection), \<^verbatim>\<open>onPendingConnection\<close> called twice in a row
  with that connection returns both times, and the second call changes nothing: the block,
  and with it the number of slots, is what the first call left. The identifiers drawn by the
  two calls are \<open>uid\<close> and \<open>uid'\<close>; the first is new on the block.
\<close>

theorem onPendingConnection_twice:
  assumes wf: "well_formed b"
    and c_on: "c \<in> connection ` set (inputList b) \<or> c = nextConnection b
               \<or> c = previousConnection b"
    and fresh: "''IF'' @ uid \<notin> set (names b)" "''DO'' @ uid \<notin> set (names b)"
  shows "\<exists>b1 b2. onPendingConnection b c uid = Some b1
           \<and> onPendingConnection b1 c uid' = Some b2
           \<and> length (inputList b2) = length (inputList b1)
           \<and> b2 = b1"
proof -
  define b0 where "b0 = (if conn_type c = NEXT_STATEMENT \<and> ''ELSE'' \<notin> set (names b)
                         then appendStatementInput b ''ELSE'' else b)"
  have names0: "set (names b0) \<subseteq> insert ''ELSE'' (set (names b))"
    and inputs0: "set (inputList b) \<subseteq> set (inputList b0)"
    and frame0: "nextConnection b0 = nextConnection b"
      "previousConnection b0 = previousConnection b"
    by (auto simp: b0_def names_def appendStatementInput_def appendInput_def new_input_def)
  have wf0: "well_formed b0"
    using wf well_formed_append_else [OF wf] by (simp add: b0_def)
  have settled0: "conn_type c = NEXT_STATEMENT \<longrightarrow> ''ELSE'' \<in> set (names b0)"
    by (auto simp: b0_def names_def appendStatementInput_def appendInput_def new_input_def)
  have c_on0: "c \<in> connection ` set (inputList b0) \<or> c = nextConnection b0
               \<or> c = previousConnection b0"
    using c_on inputs0 frame0 by auto
  have fresh0: "''IF'' @ uid \<notin> set (names b0)" "''DO'' @ uid \<notin> set (names b0)"
    using fresh names0 by auto
  have "onPendingConnection b c uid = onPendingConnection b0 c uid"
    unfolding b0_def by (rule onPendingConnection_step1)
  then show ?thesis
    using hover_twice_settled [OF wf0 settled0 c_on0 fresh0, of uid'] by auto
qed

theorem onPendingConnection_twice_witness:
  "(let b = attach two_cases ''IF1'' (real_target 7); c = connection_of b ''IF1''
    in well_formed b \<and> c \<in> connection ` set (inputList b)
       \<and> ''IFuid'' \<notin> set (names b) \<and> ''DOuid'' \<notin> set (names b)
       \<and> map_option names (onPendingConnection b c ''uid'')
           = Some [''IF0'', ''DO0'', ''IF1'', ''DO1'', ''IFuid'', ''DOuid'']
       \<and> (\<exists>b1. onPendingConnection b c ''uid'' = Some b1
                \<and> onPendingConnection b1 c ''other'' = Some b1))"
proof -
  define b where "b = attach two_cases ''IF1'' (real_target 7)"
  define c where "c = connection_of b ''IF1''"
  have wf: "well_formed b" unfolding b_def by code_simp
  have c_in: "c \<in> connection ` set (inputList b)" unfolding c_def b_def by code_simp
  have f1: "''IF'' @ ''uid'' \<notin> set (names b)" and f2: "''DO'' @ ''uid'' \<notin> set (names b)"
    unfolding b_def by code_simp+
  have nm: "map_option names (onPendingConnection b c ''uid'')
           = Some [''IF0'', ''DO0'', ''IF1'', ''DO1'', ''IFuid'', ''DOuid'']"
    unfolding c_def b_def by code_simp
  have "\<exists>b1. onPendingConnection b c ''uid'' = Some b1
                \<and> onPendingConnection b1 c ''other'' = Some b1"
    using onPendingConnection_twice [OF wf _ f1 f2, of c "''other''"] c_in by auto
  then show ?thesis
    using wf c_in f1 f2 nm by (simp add: b_def [symmetric] c_def [symmetric])
qed

subsection \<open>C6: malformed persisted counts\<close>

text \<open>
  C6 (the code departs from it). A negative \<^verbatim>\<open>elseif\<close> or \<^verbatim>\<open>else\<close> attribute should give
  the count 0. \<^verbatim>\<open>parseInt(...) || 0\<close> replaces NaN and nothing else: decoding
  \<^verbatim>\<open>elseif="-2" else="-1"\<close> into a fresh block stores \<open>elseifCount = -2\<close> and
  \<open>elseCount = -1\<close>, a count that the field is documented never to have (\<open>either 0 or 1\<close>),
  and, the else count being non-zero, appends the Else slot.
\<close>

theorem deserializeCounts_negative_counts:
  "(let b = deserializeCounts init (Map.empty(''elseif'' \<mapsto> ''-2'', ''else'' \<mapsto> ''-1''))
    in elseifCount b = - 2 \<and> elseCount b = - 1 \<and> names b = [''IF0'', ''DO0'', ''ELSE''])"
  by code_simp

text \<open>
  What the decoder does with every value. An \<^verbatim>\<open>elseif\<close> or \<^verbatim>\<open>else\<close> attribute in which
  \<^verbatim>\<open>parseInt\<close> finds no number gives the count 0, and when that holds of both the block keeps
  its slots and has both counts 0. A value that reads as a number is stored as the count, a
  negative one included; a negative else-if count adds no case slots.
\<close>

lemma deserializeCounts_coercion:
  "(parseInt (attribute_or_zero el ''elseif'') = None
      \<longrightarrow> elseifCount (deserializeCounts b el) = 0)
   \<and> (parseInt (attribute_or_zero el ''else'') = None
      \<longrightarrow> elseCount (deserializeCounts b el) = 0)
   \<and> (parseInt (attribute_or_zero el ''elseif'') = None
       \<and> parseInt (attribute_or_zero el ''else'') = None
      \<longrightarrow> deserializeCounts b el = b\<lparr>elseifCount := 0, elseCount := 0\<rparr>)
   \<and> (\<forall>k. parseInt (attribute_or_zero el ''elseif'') = Some k \<and> k < 0
      \<longrightarrow> elseifCount (deserializeCounts b el) = k
          \<and> take (length (inputList b)) (inputList (deserializeCounts b el)) = inputList b
          \<and> length (inputList (deserializeCounts b el)) \<le> Suc (length (inputList b)))
   \<and> (\<forall>k. parseInt (attribute_or_zero el ''else'') = Some k
      \<longrightarrow> elseCount (deserializeCounts b el) = k)"
  by (auto simp: deserializeCounts_def Let_def or_zero_def appendCasesFrom_counts
      appendCasesFrom_none appendStatementInput_def appendInput_def)

lemma deserializeCounts_coercion_example:
  "(let el = Map.empty(''elseif'' \<mapsto> ''abc'', ''else'' \<mapsto> ''-x'')
    in parseInt (attribute_or_zero el ''elseif'') = None
     \<and> parseInt (attribute_or_zero el ''else'') = None
     \<and> deserializeCounts two_cases el = two_cases\<lparr>elseifCount := 0, elseCount := 0\<rparr>)
   \<and> (let el = Map.empty(''elseif'' \<mapsto> ''-2'')
      in parseInt (attribute_or_zero el ''elseif'') = Some (- 2)
       \<and> elseifCount (deserializeCounts init el) = - 2
       \<and> inputList (deserializeCounts init el) = inputList init)"
proof -
  define el1 :: element where "el1 = Map.empty(''elseif'' \<mapsto> ''abc'', ''else'' \<mapsto> ''-x'')"
  define el2 :: element where "el2 = Map.empty(''elseif'' \<mapsto> ''-2'')"
  have a1: "parseInt (attribute_or_zero el1 ''elseif'') = None"
    and a2: "parseInt (attribute_or_zero el1 ''else'') = None"
    unfolding el1_def by code_simp+
  have a3: "parseInt (attribute_or_zero el2 ''elseif'') = Some (- 2)"
    and a4: "inputList (deserializeCounts init el2) = inputList init"
    unfolding el2_def by code_simp+
  have "deserializeCounts two_cases el1 = two_cases\<lparr>elseifCount := 0, elseCount := 0\<rparr>"
    using deserializeCounts_coercion [of el1 two_cases] a1 a2 by simp
  moreover have "elseifCount (deserializeCounts init el2) = - 2"
    using deserializeCounts_coercion [of el2 init] a3 by simp
  ultimately show ?thesis
    using a1 a2 a3 a4 by (simp add: el1_def el2_def)
qed

subsection \<open>C7: a connection that belongs to no slot\<close>

text \<open>
  C7 as stated fails: called with the block's own next-statement connection, which belongs
  to no slot, \<^verbatim>\<open>onPendingConnection\<close> on a fresh block appends the Else slot before it
  looks the connection up.
\<close>

theorem onPendingConnection_not_found_appends_else:
  "findInputIndexForConnection init (nextConnection init) = None
   \<and> map_option names (onPendingConnection init (nextConnection init) ''uid'')
       = Some [''IF0'', ''DO0'', ''ELSE'']
   \<and> names init = [''IF0'', ''DO0'']"
  by code_simp

text \<open>
  C7 (amended). When \<^verbatim>\<open>onPendingConnection\<close> is called with a connection that belongs to no
  slot of the block, it returns without an error, and the only thing it may have done is the
  first step of the heuristic: when the connection is of the next-statement type and the
  block has no Else slot, one empty Else slot is appended; otherwise the block is unchanged.
\<close>

theorem onPendingConnection_not_found:
  assumes "findInputIndexForConnection b c = None" and "conn_id c < fresh_id b"
  shows "onPendingConnection b c uid =
           Some (if conn_type c = NEXT_STATEMENT \<and> ''ELSE'' \<notin> set (names b)
                 then appendStatementInput b ''ELSE'' else b)"
proof -
  have "findInputIndexForConnection (appendStatementInput b ''ELSE'') c = None"
    using assms
    by (simp add: findInputIndexForConnection_def appendStatementInput_def appendInput_def
        find_conn_index_append new_input_def)
  then show ?thesis
    using assms(1) by (simp add: onPendingConnection_def getInput_None_iff)
qed

theorem onPendingConnection_not_found_witness:
  "findInputIndexForConnection two_cases (previousConnection two_cases) = None
   \<and> conn_id (previousConnection two_cases) < fresh_id two_cases
   \<and> onPendingConnection two_cases (previousConnection two_cases) ''uid'' = Some two_cases"
proof -
  have h1: "findInputIndexForConnection two_cases (previousConnection two_cases) = None"
    by code_simp
  have h2: "conn_id (previousConnection two_cases) < fresh_id two_cases"
    by code_simp
  have h3: "conn_type (previousConnection two_cases) \<noteq> NEXT_STATEMENT"
    by code_simp
  show ?thesis
    using h1 h2 h3 onPendingConnection_not_found [OF h1 h2, of "''uid''"] by simp
qed

subsection \<open>C8: what the exporter emits\<close>

text \<open>
  C8. On a well-formed block \<^verbatim>\<open>mutationToDom\<close> returns the block that \<^verbatim>\<open>finalizeConnections\<close>
  leaves, and no element exactly when both counts of that block are 0. An element it does
  return carries nothing but the two canonical attributes: \<^verbatim>\<open>elseif\<close> with the count, left
  out when the count is 0, and \<^verbatim>\<open>else\<close> with the value 1, present exactly when the block has
  an Else slot. When the first case of the block is the default one, the number of cases
  after the rebuild is the else-if count plus one, so that no element is returned exactly
  for the shape of one case and no Else slot.
\<close>

theorem mutationToDom_canonical:
  assumes wf: "well_formed b"
  shows "\<exists>b' el. mutationToDom b = Some (b', el) \<and> finalizeConnections b = Some b'
     \<and> (el = None \<longleftrightarrow> elseifCount b' = 0 \<and> elseCount b' = 0)
     \<and> (\<forall>e. el = Some e \<longrightarrow>
           getAttribute e ''elseif''
             = (if elseifCount b' = 0 then None else Some (string_of_int (elseifCount b')))
         \<and> getAttribute e ''else'' = (if hasElse b' then Some ''1'' else None)
         \<and> dom e \<subseteq> {''elseif'', ''else''})
     \<and> (hasElse b' \<longleftrightarrow> elseCount b' \<noteq> 0)
     \<and> (default_first b \<longrightarrow>
           int (caseCount b') = elseifCount b' + 1
         \<and> (el = None \<longleftrightarrow> caseCount b' = 1 \<and> \<not> hasElse b'))"
proof -
  define ps where "ps = collectTargetCaseConns b"
  define a where "a = drop 2 (name (hd (inputList b)))"
  define et where "et = elseTarget b"
  define lo where "lo = (if ps = [] then empty_case a
          else case_slots 0 ps
               @ (if a \<in> string_of_nat ` {..<length ps} then [] else empty_case a))"
  from finalizeConnections_rebuild [OF wf]
  obtain b' where fin: "finalizeConnections b = Some b'"
    and sl: "slots b' = lo @ else_slots et"
    and k: "elseifCount b' = max (int (length ps) - 1) 0"
    and c: "elseCount b' = (if et = None then 0 else 1)"
    unfolding ps_def [symmetric] a_def [symmetric] et_def [symmetric] lo_def [symmetric]
    by blast
  have "''ELSE'' \<notin> fst ` set lo"
    using else_not_case_name [of 0 ps] by (auto simp: lo_def empty_case_def)
  from hasElse_rebuilt [OF sl this] have he: "hasElse b' \<longleftrightarrow> et \<noteq> None" .
  have hc: "hasElse b' \<longleftrightarrow> elseCount b' \<noteq> 0" using he c by simp
  define el where "el = (if elseifCount b' = 0 \<and> elseCount b' = 0 then None
       else Some ((if elseCount b' \<noteq> 0
                   then setAttribute
                          (if elseifCount b' \<noteq> 0
                           then setAttribute createElement ''elseif'' (string_of_int (elseifCount b'))
                           else createElement) ''else'' ''1''
                   else (if elseifCount b' \<noteq> 0
                         then setAttribute createElement ''elseif'' (string_of_int (elseifCount b'))
                         else createElement))))"
  have m: "mutationToDom b = Some (b', el)"
    by (simp add: mutationToDom_def fin el_def Let_def)
  have none: "el = None \<longleftrightarrow> elseifCount b' = 0 \<and> elseCount b' = 0"
    by (simp add: el_def)
  have attrs: "\<forall>e. el = Some e \<longrightarrow>
           getAttribute e ''elseif''
             = (if elseifCount b' = 0 then None else Some (string_of_int (elseifCount b')))
         \<and> getAttribute e ''else'' = (if hasElse b' then Some ''1'' else None)
         \<and> dom e \<subseteq> {''elseif'', ''else''}"
    using hc
    by (auto simp: el_def getAttribute_def setAttribute_def createElement_def
        split: if_splits)
  have dflt: "default_first b \<longrightarrow>
           int (caseCount b') = elseifCount b' + 1
         \<and> (el = None \<longleftrightarrow> caseCount b' = 1 \<and> \<not> hasElse b')"
  proof
    assume df: "default_first b"
    from finalizeConnections_default [OF wf df] fin
    have sl': "slots b' = case_slots 0 (if ps = [] then [empty_pair] else ps) @ else_slots et"
      by (auto simp: ps_def et_def)
    have cc: "caseCount b' = (if ps = [] then 1 else length ps)"
      by (simp add: caseCount_def cases_of_def sl' slot_pairs_case_slots slot_pairs_else)
    have "int (caseCount b') = elseifCount b' + 1"
      by (cases ps) (simp_all add: cc k)
    moreover have "el = None \<longleftrightarrow> caseCount b' = 1 \<and> \<not> hasElse b'"
      using hc by (cases ps) (auto simp: none cc k)
    ultimately show "int (caseCount b') = elseifCount b' + 1
         \<and> (el = None \<longleftrightarrow> caseCount b' = 1 \<and> \<not> hasElse b')" by simp
  qed
  show ?thesis using m fin none attrs hc dflt by blast
qed

theorem mutationToDom_canonical_witness:
  "well_formed with_else \<and> default_first with_else
   \<and> (\<exists>b' e. mutationToDom with_else = Some (b', Some e)
         \<and> getAttribute e ''elseif'' = None \<and> getAttribute e ''else'' = Some ''1''
         \<and> names b' = [''IF0'', ''DO0'', ''ELSE''])
   \<and> well_formed init
   \<and> (\<exists>b'. mutationToDom init = Some (b', None) \<and> names b' = [''IF0'', ''DO0''])"
proof -
  have wf: "well_formed with_else" and wi: "well_formed init" and df: "default_first with_else"
    by code_simp+
  have fb: "map_option (\<lambda>b'. (names b', elseifCount b', elseCount b'))
              (finalizeConnections with_else) = Some ([''IF0'', ''DO0'', ''ELSE''], 0, 1)"
    by code_simp
  have fi: "map_option (\<lambda>b'. (names b', elseifCount b', elseCount b'))
              (finalizeConnections init) = Some ([''IF0'', ''DO0''], 0, 0)"
    by code_simp
  from mutationToDom_canonical [OF wf] fb
  have r1: "\<exists>b' e. mutationToDom with_else = Some (b', Some e)
         \<and> getAttribute e ''elseif'' = None \<and> getAttribute e ''else'' = Some ''1''
         \<and> names b' = [''IF0'', ''DO0'', ''ELSE'']"
    by (auto split: if_splits)
  from mutationToDom_canonical [OF wi] fi
  have r2: "\<exists>b'. mutationToDom init = Some (b', None) \<and> names b' = [''IF0'', ''DO0'']"
    by auto
  show ?thesis using wf wi df r1 r2 by simp
qed

subsection \<open>C9: saving and loading\<close>

text \<open>
  C9. For a well-formed block whose first case is the default one, encoding it with
  \<^verbatim>\<open>mutationToDom\<close> and loading the result into a fresh block gives a block with the same
  number of cases and the same presence of an Else slot as the encoded block has after its
  rebuild; the slot names are the same one by one. This holds for every else-if count, the
  counts 0, 1, 2 and 5 with and without an Else slot among them.
\<close>

theorem mutation_round_trip:
  assumes wf: "well_formed b" and df: "default_first b"
  shows "\<exists>b' el b''. mutationToDom b = Some (b', el) \<and> load_saved el = Some b''
     \<and> caseCount b'' = caseCount b' \<and> hasElse b'' = hasElse b'
     \<and> names b'' = names b'"
proof -
  define ps where "ps = collectTargetCaseConns b"
  define et where "et = elseTarget b"
  define cs where "cs = (if ps = [] then [empty_pair] else ps)"
  define n where "n = length cs - 1"
  define c :: int where "c = (if et = None then 0 else 1)"
  define f where "f = (\<lambda>j. [''IF'' @ string_of_nat j, ''DO'' @ string_of_nat j])"
  have lcs: "length cs = Suc n" by (cases ps) (simp_all add: cs_def n_def)
  from finalizeConnections_default [OF wf df]
  obtain b' where fin: "finalizeConnections b = Some b'"
    and sl: "slots b' = case_slots 0 cs @ else_slots et"
    and k0: "elseifCount b' = max (int (length ps) - 1) 0"
    and c0: "elseCount b' = c"
    unfolding ps_def [symmetric] et_def [symmetric] cs_def [symmetric] c_def [symmetric]
    by blast
  have k: "elseifCount b' = int n" by (cases ps) (simp_all add: k0 n_def cs_def)
  have nb': "names b' = concat (map f [0..<Suc n]) @ (if c \<noteq> 0 then [''ELSE''] else [])"
    by (simp add: names_slots sl case_slots_fst lcs f_def c_def else_slots_def
        split: option.split)
  have f0: "concat (map f [0..<Suc n]) = [''IF0'', ''DO0''] @ concat (map f [1..<Suc n])"
    by (subst upt_rec) (simp add: f_def string_of_nat_0)
  have ninit: "names init = [''IF0'', ''DO0'']" by (simp add: names_def init_def new_input_def)
  define el where "el = (if int n = 0 \<and> c = 0 then None
       else Some ((if c \<noteq> 0
                   then setAttribute
                          (if int n \<noteq> 0
                           then setAttribute createElement ''elseif'' (string_of_int (int n))
                           else createElement) ''else'' ''1''
                   else (if int n \<noteq> 0
                         then setAttribute createElement ''elseif'' (string_of_int (int n))
                         else createElement))))"
  have m: "mutationToDom b = Some (b', el)"
    by (simp add: mutationToDom_def fin el_def Let_def k c0)
  have "\<exists>b''. load_saved el = Some b'' \<and> names b'' = names b'"
  proof (cases el)
    case None
    then have "n = 0" and "c = 0" by (simp_all add: el_def split: if_splits)
    then show ?thesis using None by (simp add: load_saved_def ninit nb' f_def string_of_nat_0)
  next
    case (Some e)
    have noin: "getAttribute e ''inputs'' = None"
      using Some
      by (auto simp: el_def getAttribute_def setAttribute_def createElement_def split: if_splits)
    have pk: "or_zero (parseInt (attribute_or_zero e ''elseif'')) = int n"
      using Some parseInt_string_of_int [of "int n"]
      by (auto simp: el_def attribute_or_zero_def getAttribute_def setAttribute_def
          createElement_def or_zero_def parseInt_digits split: if_splits)
    have pc: "or_zero (parseInt (attribute_or_zero e ''else'')) = c"
      using Some
      by (auto simp: el_def attribute_or_zero_def getAttribute_def setAttribute_def
          createElement_def or_zero_def parseInt_digits c_def split: if_splits)
    have "load_saved el = Some (deserializeCounts init e)"
      by (simp add: load_saved_def Some no_inputs_attribute [OF noin])
    moreover have "names (deserializeCounts init e) = names b'"
    proof -
      have dn: "names (deserializeCounts init e)
                  = names init @ concat (map f [1..<Suc n]) @ (if c \<noteq> 0 then [''ELSE''] else [])"
        using deserializeCounts_canonical(1) [OF pk pc, of init] unfolding f_def .
      show ?thesis unfolding nb' f0 dn ninit by simp
    qed
    ultimately show ?thesis by simp
  qed
  then obtain b'' where "load_saved el = Some b''" and "names b'' = names b'" by blast
  then show ?thesis using m by (auto simp: caseCount_names hasElse_def)
qed

theorem mutation_round_trip_witness:
  "list_all (\<lambda>(k, e).
       well_formed (canonical_block k e) \<and> default_first (canonical_block k e)
       \<and> (\<exists>b' el b''. mutationToDom (canonical_block k e) = Some (b', el)
             \<and> load_saved el = Some b''
             \<and> caseCount b' = Suc k \<and> caseCount b'' = Suc k
             \<and> hasElse b' = e \<and> hasElse b'' = e))
     [(0, False), (0, True), (1, False), (1, True), (2, False), (2, True),
      (5, False), (5, True)]"
proof -
  have key: "\<exists>b' el b''. mutationToDom b = Some (b', el) \<and> load_saved el = Some b''
             \<and> caseCount b' = k \<and> caseCount b'' = k \<and> hasElse b' = e \<and> hasElse b'' = e"
    if "well_formed b" and "default_first b"
      and "map_option (\<lambda>r. (caseCount (fst r), hasElse (fst r))) (mutationToDom b) = Some (k, e)"
    for b k e
    using mutation_round_trip [OF that(1,2)] that(3) by auto
  have wf: "well_formed (canonical_block 0 False)" "well_formed (canonical_block 0 True)"
    "well_formed (canonical_block 1 False)" "well_formed (canonical_block 1 True)"
    "well_formed (canonical_block 2 False)" "well_formed (canonical_block 2 True)"
    "well_formed (canonical_block 5 False)" "well_formed (canonical_block 5 True)"
    by code_simp+
  have df: "default_first (canonical_block 0 False)" "default_first (canonical_block 0 True)"
    "default_first (canonical_block 1 False)" "default_first (canonical_block 1 True)"
    "default_first (canonical_block 2 False)" "default_first (canonical_block 2 True)"
    "default_first (canonical_block 5 False)" "default_first (canonical_block 5 True)"
    by code_simp+
  have ev:
    "map_option (\<lambda>r. (caseCount (fst r), hasElse (fst r))) (mutationToDom (canonical_block 0 False))
       = Some (Suc 0, False)"
    "map_option (\<lambda>r. (caseCount (fst r), hasElse (fst r))) (mutationToDom (canonical_block 0 True))
       = Some (Suc 0, True)"
    "map_option (\<lambda>r. (caseCount (fst r), hasElse (fst r))) (mutationToDom (canonical_block 1 False))
       = Some (Suc 1, False)"
    "map_option (\<lambda>r. (caseCount (fst r), hasElse (fst r))) (mutationToDom (canonical_block 1 True))
       = Some (Suc 1, True)"
    "map_option (\<lambda>r. (caseCount (fst r), hasElse (fst r))) (mutationToDom (canonical_block 2 False))
       = Some (Suc 2, False)"
    "map_option (\<lambda>r. (caseCount (fst r), hasElse (fst r))) (mutationToDom (canonical_block 2 True))
       = Some (Suc 2, True)"
    "map_option (\<lambda>r. (caseCount (fst r), hasElse (fst r))) (mutationToDom (canonical_block 5 False))
       = Some (Suc 5, False)"
    "map_option (\<lambda>r. (caseCount (fst r), hasElse (fst r))) (mutationToDom (canonical_block 5 True))
       = Some (Suc 5, True)"
    by code_simp+
  show ?thesis
    using wf df key [OF wf(1) df(1) ev(1)] key [OF wf(2) df(2) ev(2)]
      key [OF wf(3) df(3) ev(3)] key [OF wf(4) df(4) ev(4)]
      key [OF wf(5) df(5) ev(5)] key [OF wf(6) df(6) ev(6)]
      key [OF wf(7) df(7) ev(7)] key [OF wf(8) df(8) ev(8)]
    by simp
qed

subsection \<open>C10: running the rebuild twice\<close>

text \<open>
  C10 (the code departs from it). Running \<^verbatim>\<open>finalizeConnections\<close> twice should give what
  running it once gives. On the block decoded from the legacy form \<^verbatim>\<open>inputs="3"\<close> with a
  real block on \<open>IF3\<close>, the first run leaves the four slots \<open>IF0, DO0, IF3, DO3\<close> and the second
  run, which now finds the default inputs in front, prunes the list to \<open>IF0, DO0\<close>.
\<close>

theorem finalize_twice_legacy:
  "(case finalizeConnections (attach legacy_three ''IF3'' (real_target 7)) of
      None \<Rightarrow> False
    | Some b1 \<Rightarrow>
        slots b1 = [(''IF0'', Some (real_target 7)), (''DO0'', None),
                    (''IF3'', None), (''DO3'', None)]
        \<and> map_option slots (finalizeConnections b1)
            = Some [(''IF0'', Some (real_target 7)), (''DO0'', None)])"
  by code_simp

end
